theory Spec2Isabelle
  imports
    Complex_Main
    "HOL-Library.Word"
    "HOL-Library.Log_Nat"
    "HOL-Library.Char_ord"
    "HOL-Library.List_Lexorder"
    "HOL-Library.Multiset"
begin

unbundle bit_operations_syntax

section \<open>Data model of package infohash\<close>

text \<open>
  Go's \<open>byte\<close>, \<open>uint32\<close> and \<open>uint64\<close> are words of that width. A Go \<open>string\<close> is a
  sequence of bytes compared bytewise, which is \<open>string\<close> with the order of
  \<open>Char_ord\<close> and \<open>List_Lexorder\<close>; \<open>[]byte(s)\<close> is \<open>bytes_of s\<close>.
  Go's \<open>int\<close> only holds slice indices and lengths here, so it is \<open>nat\<close>, with the
  conversion \<open>uint32(len(fields))\<close> written as \<open>of_nat\<close> into \<open>32 word\<close>, which
  truncates as Go does where \<open>int\<close> has 64 bits. The statements about the number of
  parity words therefore assume fewer than \<open>2^32\<close> fields.
\<close>

type_synonym byte = "8 word"
type_synonym uint32 = "32 word"
type_synonym uint64 = "64 word"

definition bytes_of :: "string \<Rightarrow> byte list" where
  "bytes_of s = map (\<lambda>c. of_char c) s"

text \<open>
  The errors of \<open>getFieldInfos\<close>, one constructor per \<open>fmt.Errorf\<close> of the source:
  "the object must be a pointer", "the object must be a pointer to a struct",
  "the field %s has no tag infohash" (with the Go name of the field) and
  "the tag %q is used more than once" (with the tag).
\<close>

datatype error =
    NotPointer
  | NotStructPointer
  | NoTag string
  | TagUsedTwice string

text \<open>
  How a call ends without a result: it returns an error, or \<open>Interface()\<close> panics
  in \<open>getFieldInfos\<close>.
\<close>

datatype failure =
    Err error
  | InterfacePanic

text \<open>
  What reflection reads of one struct field: its Go name, whether it is exported
  (\<open>StructField.IsExported\<close>: the name begins with an upper-case letter), the value
  of its \<open>infohash\<close> key in the struct tag (\<open>None\<close> when the key is absent) and the
  value stored in the field. \<open>Tag.Get\<close> returns the empty string for an absent key.
\<close>

record 'v structField =
  fieldName :: string
  exported :: bool
  infohashTag :: "string option"
  storedValue :: 'v

definition tagGet :: "'v structField \<Rightarrow> string" where
  "tagGet sf = (case infohashTag sf of None \<Rightarrow> [] | Some t \<Rightarrow> t)"

text \<open>
  The argument \<open>obj interface{}\<close> as \<open>reflect\<close> sees it, by the two tests of
  \<open>getFieldInfos\<close>: a value whose kind is not \<open>Ptr\<close> (the nil interface
  included); a pointer whose \<open>Elem()\<close> is not of kind \<open>Struct\<close> (a nil pointer
  included: its \<open>Elem()\<close> is the zero \<open>Value\<close>, of kind \<open>Invalid\<close>); or a pointer
  to a struct, with its fields in declaration order.
\<close>

datatype 'v object =
    NonPointer
  | PointerToNonStruct
  | PointerToStruct "'v structField list"

record 'v fieldInfo =
  name :: string
  fieldValue :: 'v

text \<open>
  The result of \<open>CompareHashStruct\<close>: \<open>nil\<close> (\<open>NoError\<close>), a \<open>FieldChangedError\<close> with its
  \<open>Field\<close>, the error of \<open>getFieldInfos\<close>, or a run-time panic: of \<open>Interface()\<close>
  in \<open>getFieldInfos\<close>, of a slice expression, or of an index out of range.
\<close>

datatype compareResult =
    NoError
  | FieldChangedError string
  | Failed error
  | Panic

text \<open>
  A byte slice passed by a caller: its \<open>len\<close> elements, and the elements of the
  backing array between \<open>len\<close> and \<open>cap\<close>, which \<open>s[:8]\<close> can reach.
\<close>

record byteSlice =
  elems :: "byte list"
  beyondLen :: "byte list"

definition sliceOf :: "byte list \<Rightarrow> byteSlice" where
  "sliceOf bs = \<lparr>elems = bs, beyondLen = []\<rparr>"

section \<open>getFieldInfos\<close>

text \<open>
  The loop over the fields, with the set \<open>tags\<close> and the slice \<open>fieldInfos\<close> as
  they stand before field \<open>i\<close>. The two tests of the tag come first; then
  \<open>fieldValue.Addr().Interface()\<close> panics when the field is not exported
  (\<open>reflect\<close>: "cannot return value obtained from unexported field"), before any later
  field is looked at. Otherwise it is a pointer to the field, and what \<open>getHashes\<close>
  prints through it, later in the same call, is the value stored in the field.
\<close>

fun getFieldInfos_loop ::
  "'v structField list \<Rightarrow> string set \<Rightarrow> 'v fieldInfo list \<Rightarrow> failure + 'v fieldInfo list" where
  "getFieldInfos_loop [] tags fieldInfos = Inr fieldInfos"
| "getFieldInfos_loop (sf # rest) tags fieldInfos =
     (let tag = tagGet sf in
      if tag = [] then Inl (Err (NoTag (fieldName sf)))
      else if tag \<in> tags then Inl (Err (TagUsedTwice tag))
      else if \<not> exported sf then Inl InterfacePanic
      else getFieldInfos_loop rest (insert tag tags)
             (fieldInfos @ [\<lparr>name = tag, fieldValue = storedValue sf\<rparr>]))"

text \<open>
  \<open>sort.Slice\<close> is not stable, but it is only reached when the tags are pairwise
  different, where every sorting algorithm returns the same slice; it is
  \<open>sort_key name\<close> here.
\<close>

definition getFieldInfos :: "'v object \<Rightarrow> failure + 'v fieldInfo list" where
  "getFieldInfos obj =
     (case obj of
        NonPointer \<Rightarrow> Inl (Err NotPointer)
      | PointerToNonStruct \<Rightarrow> Inl (Err NotStructPointer)
      | PointerToStruct structFields \<Rightarrow>
          (case getFieldInfos_loop structFields {} [] of
             Inl failed \<Rightarrow> Inl failed
           | Inr fieldInfos \<Rightarrow> Inr (sort_key name fieldInfos)))"

section \<open>getHashes\<close>

text \<open>
  \<open>hash/fnv\<close>: \<open>New32a\<close> and \<open>New64a\<close> start at the offset basis, and \<open>Write\<close> does
  \<open>hash ^= c; hash *= prime\<close> for each byte. Neither \<open>Write\<close> returns an error, so
  the two error returns of \<open>getHashes\<close> are never taken and the model has none.
\<close>

definition offset32 :: uint32 where "offset32 = 2166136261"
definition prime32 :: uint32 where "prime32 = 16777619"
definition offset64 :: uint64 where "offset64 = 14695981039346656037"
definition prime64 :: uint64 where "prime64 = 1099511628211"

definition write32a :: "uint32 \<Rightarrow> byte list \<Rightarrow> uint32" where
  "write32a h bs = foldl (\<lambda>hash c. (hash XOR ucast c) * prime32) h bs"

definition write64a :: "uint64 \<Rightarrow> byte list \<Rightarrow> uint64" where
  "write64a h bs = foldl (\<lambda>hash c. (hash XOR ucast c) * prime64) h bs"

text \<open>\<open>io.MultiWriter(fullHash, fieldHash)\<close> writes the same bytes to both.\<close>

definition multiWrite :: "uint64 \<times> uint32 \<Rightarrow> byte list \<Rightarrow> uint64 \<times> uint32" where
  "multiWrite w bs = (write64a (fst w) bs, write32a (snd w) bs)"

text \<open>
  The output of \<open>prettyPrintConfigForHash.Fprintf(w, "%#v", v)\<close> belongs to the
  package \<open>spew\<close>; it is the parameter \<open>fprintf\<close>, from a field value to the bytes
  written.
\<close>

fun getHashes_loop ::
  "('v \<Rightarrow> byte list) \<Rightarrow> 'v fieldInfo list \<Rightarrow> uint64 \<Rightarrow> uint32 list \<Rightarrow> uint64 \<times> uint32 list" where
  "getHashes_loop fprintf [] fullHash fieldHashes = (fullHash, fieldHashes)"
| "getHashes_loop fprintf (info # rest) fullHash fieldHashes =
     (let w0 = (fullHash, offset32);
          w1 = multiWrite w0 (bytes_of (name info));
          w2 = multiWrite w1 (fprintf (fieldValue info))
      in getHashes_loop fprintf rest (fst w2) (fieldHashes @ [snd w2]))"

definition getHashes :: "('v \<Rightarrow> byte list) \<Rightarrow> 'v fieldInfo list \<Rightarrow> uint64 \<times> uint32 list" where
  "getHashes fprintf fieldInfos = getHashes_loop fprintf fieldInfos offset64 []"

section \<open>The Hamming code\<close>

function log2OfXPlusOne_loop :: "uint32 \<Rightarrow> uint32 \<Rightarrow> uint32" where
  "log2OfXPlusOne_loop x r =
     (if x > 0 then log2OfXPlusOne_loop (drop_bit 1 x) (r + 1) else r)"
  by pat_completeness auto
termination
proof (relation "measure (\<lambda>(x, r). unat x)")
  show "wf (measure (\<lambda>(x :: uint32, r :: uint32). unat x))" by simp
next
  fix x r :: uint32
  assume "0 < x"
  then have "unat x \<noteq> 0" by (simp add: unat_eq_0 word_greater_zero_iff)
  then have "unat x div 2 < unat x" by simp
  then show "((drop_bit 1 x, r + 1), (x, r)) \<in> measure (\<lambda>(x, r). unat x)"
    by (simp add: drop_bit_eq_div unat_div)
qed

definition log2OfXPlusOne :: "uint32 \<Rightarrow> uint32" where
  "log2OfXPlusOne x = log2OfXPlusOne_loop x 0"

text \<open>
  The parameter \<open>fields\<close> of the source is \<open>flds\<close> below and its index \<open>id\<close>
  is \<open>idx\<close>. One turn of the inner loop \<open>for i := range parityCodes\<close>, the inner
  loop for the field at index \<open>idx\<close>, and the outer loop
  \<open>for id, field := range fields\<close> from index \<open>idx\<close> on. \<open>id+1\<close> and \<open>1<<i\<close> are
  of type \<open>int\<close> and do not overflow: \<open>i\<close> is below 32.
\<close>

definition parityStep :: "nat \<Rightarrow> uint32 \<Rightarrow> uint32 list \<Rightarrow> nat \<Rightarrow> uint32 list" where
  "parityStep idx field parityCodes i =
     (if (idx + 1) AND push_bit i 1 \<noteq> 0
      then parityCodes[i := (parityCodes ! i) XOR field]
      else parityCodes)"

definition parityField :: "nat \<Rightarrow> uint32 \<Rightarrow> uint32 list \<Rightarrow> uint32 list" where
  "parityField idx field parityCodes =
     foldl (parityStep idx field) parityCodes [0..<length parityCodes]"

fun parityFields :: "nat \<Rightarrow> uint32 list \<Rightarrow> uint32 list \<Rightarrow> uint32 list" where
  "parityFields idx [] parityCodes = parityCodes"
| "parityFields idx (field # rest) parityCodes =
     parityFields (idx + 1) rest (parityField idx field parityCodes)"

definition calculateHammingCode :: "uint32 list \<Rightarrow> uint32 list" where
  "calculateHammingCode flds =
     (let log2NumberOfFieldsPlusOne = log2OfXPlusOne (of_nat (length flds));
          parityCodes = replicate (unat log2NumberOfFieldsPlusOne) 0
      in parityFields 0 flds parityCodes)"

text \<open>
  The loop of \<open>findErrorLocation\<close> from index \<open>i\<close> on; \<open>None\<close> is the panic of
  \<open>expectedCode[i]\<close> out of range. \<open>1 << i\<close> is a \<open>uint32\<close> shift.
\<close>

function findErrorLocation_loop ::
  "uint32 list \<Rightarrow> uint32 list \<Rightarrow> nat \<Rightarrow> uint32 \<Rightarrow> uint32 option" where
  "findErrorLocation_loop hammingCode expectedCode i errorLocation =
     (if i < length hammingCode then
        (if i < length expectedCode then
           findErrorLocation_loop hammingCode expectedCode (i + 1)
             (if hammingCode ! i \<noteq> expectedCode ! i
              then errorLocation OR push_bit i 1 else errorLocation)
         else None)
      else Some errorLocation)"
  by pat_completeness auto
termination
  by (relation "measure (\<lambda>(hammingCode, expectedCode, i, errorLocation). length hammingCode - i)")
    auto

definition findErrorLocation :: "uint32 list \<Rightarrow> uint32 list \<Rightarrow> (bool \<times> uint32) option" where
  "findErrorLocation flds hammingCode =
     (let expectedCode = calculateHammingCode flds in
      case findErrorLocation_loop hammingCode expectedCode 0 0 of
        None \<Rightarrow> None
      | Some errorLocation \<Rightarrow>
          if errorLocation = 0 \<or> errorLocation > of_nat (length flds)
          then Some (False, 0)
          else Some (True, errorLocation - 1))"

section \<open>The fingerprint\<close>

definition uint64ToSlice :: "uint64 \<Rightarrow> byte list" where
  "uint64ToSlice i =
     [ucast (255 AND drop_bit 0 i), ucast (255 AND drop_bit 8 i),
      ucast (255 AND drop_bit 16 i), ucast (255 AND drop_bit 24 i),
      ucast (255 AND drop_bit 32 i), ucast (255 AND drop_bit 40 i),
      ucast (255 AND drop_bit 48 i), ucast (255 AND drop_bit 56 i)]"

text \<open>Called on \<open>existingHash[:8]\<close> only, a slice of eight bytes.\<close>

definition uint64FromSlice :: "byte list \<Rightarrow> uint64" where
  "uint64FromSlice s =
     0 OR push_bit 0 (ucast (s ! 0)) OR push_bit 8 (ucast (s ! 1))
       OR push_bit 16 (ucast (s ! 2)) OR push_bit 24 (ucast (s ! 3))
       OR push_bit 32 (ucast (s ! 4)) OR push_bit 40 (ucast (s ! 5))
       OR push_bit 48 (ucast (s ! 6)) OR push_bit 56 (ucast (s ! 7))"

definition uint32FromBytes :: "byte list \<Rightarrow> nat \<Rightarrow> uint32" where
  "uint32FromBytes s i =
     push_bit 0 (ucast (s ! (i * 4 + 0))) OR push_bit 8 (ucast (s ! (i * 4 + 1)))
       OR push_bit 16 (ucast (s ! (i * 4 + 2))) OR push_bit 24 (ucast (s ! (i * 4 + 3)))"

text \<open>\<open>out\<close> has \<open>len(s)/4\<close> elements, so every index \<open>i*4+3\<close> read is below \<open>len(s)\<close>.\<close>

definition uint32SliceFromByteSlice :: "byte list \<Rightarrow> uint32 list" where
  "uint32SliceFromByteSlice s = map (uint32FromBytes s) [0..<length s div 4]"

definition uint32ToBytes :: "uint32 \<Rightarrow> byte list" where
  "uint32ToBytes w =
     [ucast (255 AND drop_bit 0 w), ucast (255 AND drop_bit 8 w),
      ucast (255 AND drop_bit 16 w), ucast (255 AND drop_bit 24 w)]"

definition uint32SliceToByteSlice :: "uint32 list \<Rightarrow> byte list" where
  "uint32SliceToByteSlice i = concat (map uint32ToBytes i)"

definition hashInfo :: "('v \<Rightarrow> byte list) \<Rightarrow> 'v fieldInfo list \<Rightarrow> byte list" where
  "hashInfo fprintf fieldInfos =
     (let (fullHash, fieldHashes) = getHashes fprintf fieldInfos;
          hammingCode = calculateHammingCode fieldHashes
      in uint64ToSlice fullHash @ uint32SliceToByteSlice hammingCode)"

text \<open>
  \<open>Inl (Err err)\<close> is the return \<open>(nil, err)\<close>, \<open>Inr h\<close> the return \<open>(h, nil)\<close>, and
  \<open>Inl InterfacePanic\<close> the panic inside \<open>getFieldInfos\<close>.
\<close>

definition HashStruct :: "('v \<Rightarrow> byte list) \<Rightarrow> 'v object \<Rightarrow> failure + byte list" where
  "HashStruct fprintf obj =
     (case getFieldInfos obj of
        Inl failed \<Rightarrow> Inl failed
      | Inr fieldInfos \<Rightarrow> Inr (hashInfo fprintf fieldInfos))"

text \<open>
  After \<open>getFieldInfos\<close>, \<open>existingHash[:8]\<close> panics when \<open>cap(existingHash) < 8\<close> and
  \<open>existingHash[8:]\<close> when \<open>len(existingHash) < 8\<close>; \<open>fieldInfos[location]\<close>
  panics when \<open>location\<close> is not below \<open>len(fieldInfos)\<close>.
\<close>

definition CompareHashStruct ::
  "('v \<Rightarrow> byte list) \<Rightarrow> 'v object \<Rightarrow> byteSlice \<Rightarrow> compareResult" where
  "CompareHashStruct fprintf obj existingHash =
     (case getFieldInfos obj of
        Inl (Err err) \<Rightarrow> Failed err
      | Inl InterfacePanic \<Rightarrow> Panic
      | Inr fieldInfos \<Rightarrow>
          (let (fullHash, fieldHashes) = getHashes fprintf fieldInfos in
           if length (elems existingHash) + length (beyondLen existingHash) < 8 then Panic
           else
             let existingFullHash =
                   uint64FromSlice (take 8 (elems existingHash @ beyondLen existingHash)) in
             if existingFullHash = fullHash then NoError
             else if length (elems existingHash) < 8 then Panic
             else
               let existingHammingCode =
                     uint32SliceFromByteSlice (drop 8 (elems existingHash)) in
               (case findErrorLocation fieldHashes existingHammingCode of
                  None \<Rightarrow> Panic
                | Some (foundLocation, location) \<Rightarrow>
                    if \<not> foundLocation then FieldChangedError []
                    else if unat location < length fieldInfos
                    then FieldChangedError (name (fieldInfos ! unat location))
                    else Panic)))"

section \<open>Notions of the specification\<close>

text \<open>
  A well-formed record: a non-nil pointer to a struct whose fields all carry non-empty,
  pairwise different \<open>infohash\<close> tags.
\<close>

definition wellFormed :: "'v object \<Rightarrow> bool" where
  "wellFormed obj =
     (case obj of
        PointerToStruct structFields \<Rightarrow>
          (\<forall>sf \<in> set structFields. infohashTag sf \<noteq> None \<and> infohashTag sf \<noteq> Some []) \<and>
          distinct (map tagGet structFields)
      | _ \<Rightarrow> False)"

text \<open>
  All fields of the struct are exported, so that \<open>Interface()\<close> panics on none.
\<close>

definition fieldsExported :: "'v object \<Rightarrow> bool" where
  "fieldsExported obj =
     (case obj of
        PointerToStruct structFields \<Rightarrow> \<forall>sf \<in> set structFields. exported sf
      | _ \<Rightarrow> True)"

text \<open>
  The \<open>fieldInfo\<close> that \<open>getFieldInfos\<close> appends for a struct field, and the bytes
  that \<open>getHashes\<close> writes for a \<open>fieldInfo\<close>: the identifier, then the serialized
  value.
\<close>

definition toFieldInfo :: "'v structField \<Rightarrow> 'v fieldInfo" where
  "toFieldInfo sf = \<lparr>name = tagGet sf, fieldValue = storedValue sf\<rparr>"

definition hashInput :: "('v \<Rightarrow> byte list) \<Rightarrow> 'v fieldInfo \<Rightarrow> byte list" where
  "hashInput fprintf info = bytes_of (name info) @ fprintf (fieldValue info)"

text \<open>
  The identifier of a struct field with the serialization of its value: the
  identifier-to-serialized-value mapping of a record is the multiset of these pairs.
\<close>

definition identifierAndSerialized ::
  "('v \<Rightarrow> byte list) \<Rightarrow> 'v structField \<Rightarrow> string \<times> byte list" where
  "identifierAndSerialized fprintf sf = (tagGet sf, fprintf (storedValue sf))"

text \<open>
  The parity word \<open>k\<close> in the words of the specification: the XOR of every field
  checksum whose 1-based position has bit \<open>k\<close> set. \<open>xorOfPositions\<close> is the same with
  the position of the first checksum left open, for the induction over the fields.
\<close>

definition parityWordSpec :: "uint32 list \<Rightarrow> nat \<Rightarrow> uint32" where
  "parityWordSpec checksums k =
     foldr (XOR) (map snd (filter (\<lambda>(position, checksum). bit position k) (enumerate 1 checksums))) 0"

definition xorOfPositions :: "nat \<Rightarrow> uint32 list \<Rightarrow> nat \<Rightarrow> uint32" where
  "xorOfPositions start flds k =
     foldr (XOR) (map snd (filter (\<lambda>(pos, c). bit pos k) (enumerate start flds))) 0"

section \<open>Example records\<close>

text \<open>
  What \<open>prettyPrintConfigForHash.Fprintf(w, "%#v", v)\<close> writes for a pointer to a
  string: the type in parentheses, then the string itself, without quotes and without
  the address (\<open>DisablePointerAddresses\<close>). The struct of \<open>TestHashStatic\<close> is given
  with the output for each of its twelve values in place of the value.
\<close>

definition spewString :: "string \<Rightarrow> byte list" where
  "spewString s = bytes_of (''(*string)'' @ s)"

definition testStruct :: "string structField list" where
  "testStruct =
     [\<lparr>fieldName = ''Field1'', exported = True,
        infohashTag = Some ''Field1'', storedValue = ''(*string)test1''\<rparr>,
      \<lparr>fieldName = ''Field2'', exported = True,
        infohashTag = Some ''Field2'', storedValue = ''(*[]string)[test2 test3]''\<rparr>,
      \<lparr>fieldName = ''Field3'', exported = True,
        infohashTag = Some ''Field3'', storedValue = ''(*int)123''\<rparr>,
      \<lparr>fieldName = ''Field4'', exported = True,
        infohashTag = Some ''Field4'', storedValue = ''(*string)test4''\<rparr>,
      \<lparr>fieldName = ''Field5'', exported = True,
        infohashTag = Some ''Field5'', storedValue = ''(*float32)123.456''\<rparr>,
      \<lparr>fieldName = ''Field6'', exported = True,
        infohashTag = Some ''Field6'', storedValue = ''(*float32)0''\<rparr>,
      \<lparr>fieldName = ''Field7'', exported = True,
        infohashTag = Some ''Field7'', storedValue = ''(*float32)0''\<rparr>,
      \<lparr>fieldName = ''Field8'', exported = True,
        infohashTag = Some ''Field8'', storedValue = ''(*float32)0''\<rparr>,
      \<lparr>fieldName = ''Field9'', exported = True,
        infohashTag = Some ''Field9'', storedValue = ''(*float32)0''\<rparr>,
      \<lparr>fieldName = ''Field10'', exported = True,
        infohashTag = Some ''Field10'', storedValue = ''(*float32)0''\<rparr>,
      \<lparr>fieldName = ''Field11'', exported = True,
        infohashTag = Some ''Field11'', storedValue = ''(*float32)0''\<rparr>,
      \<lparr>fieldName = ''Field12'', exported = True,
        infohashTag = Some ''Field12'', storedValue = ''(*float32)0''\<rparr>]"

text \<open>
  A struct with one string field tagged \<open>a\<close>, a struct with three string fields tagged
  \<open>a\<close>, \<open>b\<close> and \<open>c\<close>, the fingerprints of three of their values, the sorted field
  infos of one of them, and the struct of \<open>TestGetFieldInfos\<close> that uses the tag
  \<open>Field2\<close> twice. Then a struct whose only field \<open>a\<close> is unexported and tagged, and
  a struct with that field followed by an exported field \<open>B\<close> without a tag.
\<close>

definition oneField :: "string \<Rightarrow> string structField list" where
  "oneField a = [\<lparr>fieldName = ''A'', exported = True, infohashTag = Some ''a'', storedValue = a\<rparr>]"

definition threeFields :: "string \<Rightarrow> string \<Rightarrow> string \<Rightarrow> string structField list" where
  "threeFields a b c =
     [\<lparr>fieldName = ''A'', exported = True, infohashTag = Some ''a'', storedValue = a\<rparr>,
      \<lparr>fieldName = ''B'', exported = True, infohashTag = Some ''b'', storedValue = b\<rparr>,
      \<lparr>fieldName = ''C'', exported = True, infohashTag = Some ''c'', storedValue = c\<rparr>]"

definition hashOfGlzg :: "byte list" where
  "hashOfGlzg = [86, 241, 128, 92, 16, 219, 228, 107, 150, 234, 200, 91]"

definition hashOfXYZ :: "byte list" where
  "hashOfXYZ = [126, 34, 66, 147, 6, 20, 232, 217, 248, 131, 55, 103, 234, 127, 39, 81]"

definition hashOfXY2Z :: "byte list" where
  "hashOfXY2Z = [86, 43, 167, 2, 217, 203, 60, 130, 248, 131, 55, 103, 44, 207, 182, 15]"

definition infosXY2Z :: "string fieldInfo list" where
  "infosXY2Z = [\<lparr>name = ''a'', fieldValue = ''x''\<rparr>, \<lparr>name = ''b'', fieldValue = ''y2''\<rparr>,
     \<lparr>name = ''c'', fieldValue = ''z''\<rparr>]"




section \<open>The loops\<close>

text \<open>
  The equations of the two loops defined by \<^theory_text>\<open>function\<close> rewrite a call into
  itself; they are applied by hand.
\<close>

declare findErrorLocation_loop.simps [simp del]

declare log2OfXPlusOne_loop.simps [simp del]

subsection \<open>log2OfXPlusOne\<close>

lemma ceillog2_Suc_rec: "0 < x \<Longrightarrow> ceillog2 (Suc x) = Suc (ceillog2 (Suc (x div 2)))"
  by (subst ceillog2_rec) (simp)

lemma log2OfXPlusOne_loop_eq:
  "log2OfXPlusOne_loop x r = r + of_nat (ceillog2 (Suc (unat x)))"
proof (induction x r rule: log2OfXPlusOne_loop.induct)
  case (1 x r)
  show ?case
  proof (cases "0 < x")
    case True
    then have pos: "0 < unat x" by (simp add: word_greater_zero_iff unat_gt_0)
    have "log2OfXPlusOne_loop x r = log2OfXPlusOne_loop (drop_bit 1 x) (r + 1)"
      using True by (subst log2OfXPlusOne_loop.simps) simp
    also have "\<dots> = r + 1 + of_nat (ceillog2 (Suc (unat (drop_bit 1 x))))"
      using 1 True by simp
    also have "unat (drop_bit 1 x) = unat x div 2"
      by (simp add: drop_bit_eq_div unat_div)
    finally show ?thesis
      using pos by (simp add: ceillog2_Suc_rec)
  next
    case False
    then have "x = 0" by (simp add: word_greater_zero_iff)
    then show ?thesis by (subst log2OfXPlusOne_loop.simps) simp
  qed
qed

lemma ceillog2_Suc_le: "n < 2 ^ k \<Longrightarrow> ceillog2 (Suc n) \<le> k"
  by (simp add: ceillog2_le_iff Suc_le_eq)

lemma unat_log2OfXPlusOne: "unat (log2OfXPlusOne x) = ceillog2 (Suc (unat x))"
proof -
  have "unat x < 2 ^ 32" using unsigned_less [of x, where ?'a = nat] by simp
  then have "ceillog2 (Suc (unat x)) \<le> 32" by (rule ceillog2_Suc_le)
  then have "ceillog2 (Suc (unat x)) < 2 ^ LENGTH(32)" by simp
  then show ?thesis
    unfolding log2OfXPlusOne_def log2OfXPlusOne_loop_eq
    by (simp add: unat_of_nat take_bit_nat_eq_self)
qed

lemma ceillog2_Suc_ceiling: "int (ceillog2 (Suc n)) = \<lceil>log 2 (real (n + 1))\<rceil>"
proof -
  have "0 \<le> log 2 (real (Suc n))" by simp
  then have "0 \<le> \<lceil>log 2 (real (Suc n))\<rceil>" by linarith
  then show ?thesis by (simp add: ceillog2_def)
qed

subsection \<open>calculateHammingCode\<close>

lemma nat_and_exp_pos: "(0 < (m::nat) AND 2 ^ i) = bit m i"
  using and_exp_eq_0_iff_not_bit [of m i] by auto

lemma nat_and_exp_zero: "((m::nat) AND 2 ^ i = 0) = (\<not> bit m i)"
  by (rule and_exp_eq_0_iff_not_bit)

lemma length_parityStep [simp]: "length (parityStep idx field pc i) = length pc"
  by (simp add: parityStep_def)

lemma foldl_parityStep:
  "m \<le> length pc \<Longrightarrow>
   length (foldl (parityStep idx field) pc [0..<m]) = length pc \<and>
   (\<forall>k < length pc. foldl (parityStep idx field) pc [0..<m] ! k =
      (if k < m \<and> bit (idx + 1) k then pc ! k XOR field else pc ! k))"
proof (induction m)
  case 0
  then show ?case by simp
next
  case (Suc m)
  then have IH: "length (foldl (parityStep idx field) pc [0..<m]) = length pc"
    "\<And>k. k < length pc \<Longrightarrow> foldl (parityStep idx field) pc [0..<m] ! k =
      (if k < m \<and> bit (idx + 1) k then pc ! k XOR field else pc ! k)"
    by simp_all
  from Suc.prems have m: "m < length pc" by simp
  define X where "X = foldl (parityStep idx field) pc [0..<m]"
  have step: "foldl (parityStep idx field) pc [0..<Suc m] = parityStep idx field X m"
    by (simp add: X_def)
  have lenX: "length X = length pc" and nthX: "\<And>k. k < length pc \<Longrightarrow>
      X ! k = (if k < m \<and> bit (idx + 1) k then pc ! k XOR field else pc ! k)"
    using IH by (simp_all add: X_def)
  have "length (parityStep idx field X m) = length pc"
    by (simp add: lenX)
  moreover have "parityStep idx field X m ! k =
      (if k < Suc m \<and> bit (idx + 1) k then pc ! k XOR field else pc ! k)"
    if "k < length pc" for k
    using that m lenX nthX [OF that] nthX [OF m]
    by (auto simp: parityStep_def nat_and_exp_pos nat_and_exp_zero nth_list_update less_Suc_eq)
  ultimately show ?case
    unfolding step by blast
qed

lemma length_parityField [simp]: "length (parityField idx field pc) = length pc"
  using foldl_parityStep [of "length pc" pc idx field] by (simp add: parityField_def)

lemma nth_parityField:
  "k < length pc \<Longrightarrow>
   parityField idx field pc ! k = (if bit (idx + 1) k then pc ! k XOR field else pc ! k)"
  using foldl_parityStep [of "length pc" pc idx field] by (simp add: parityField_def)

lemma xorOfPositions_Nil [simp]: "xorOfPositions start [] k = 0"
  by (simp add: xorOfPositions_def)

lemma xorOfPositions_Cons [simp]:
  "xorOfPositions start (c # cs) k =
     (if bit start k then c else 0) XOR xorOfPositions (Suc start) cs k"
  by (simp add: xorOfPositions_def)

lemma length_parityFields [simp]: "length (parityFields idx flds pc) = length pc"
  by (induction flds arbitrary: idx pc) simp_all

lemma nth_parityFields:
  "k < length pc \<Longrightarrow>
   parityFields idx flds pc ! k = pc ! k XOR xorOfPositions (idx + 1) flds k"
  by (induction flds arbitrary: idx pc) (simp_all add: nth_parityField xor.assoc)

lemma length_calculateHammingCode:
  "length (calculateHammingCode flds) = ceillog2 (Suc (length flds mod 2 ^ 32))"
  by (simp add: calculateHammingCode_def Let_def unat_log2OfXPlusOne unat_of_nat)

lemma length_calculateHammingCode_small:
  "length flds < 2 ^ 32 \<Longrightarrow> length (calculateHammingCode flds) = ceillog2 (Suc (length flds))"
  by (simp add: length_calculateHammingCode)

lemma nth_calculateHammingCode:
  "k < length (calculateHammingCode flds) \<Longrightarrow>
   calculateHammingCode flds ! k = xorOfPositions 1 flds k"
  using nth_parityFields [of k "replicate (unat (log2OfXPlusOne (of_nat (length flds)))) 0" 0 flds]
  by (simp add: calculateHammingCode_def Let_def)

lemma xorOfPositions_update:
  "i < length flds \<Longrightarrow>
   xorOfPositions start (flds[i := v]) k =
     xorOfPositions start flds k XOR (if bit (start + i) k then flds ! i XOR v else 0)"
proof (induction flds arbitrary: start i)
  case Nil
  then show ?case by simp
next
  case (Cons c cs)
  show ?case
  proof (cases i)
    case 0
    then show ?thesis by (simp add: ac_simps)
  next
    case (Suc j)
    with Cons.prems have "j < length cs" by simp
    from Cons.IH [OF this, of "Suc start"] Suc show ?thesis
      by (simp add: xor.assoc)
  qed
qed

subsection \<open>findErrorLocation\<close>

lemma findErrorLocation_loop_Some:
  "length hammingCode \<le> length expectedCode \<Longrightarrow>
   \<exists>e. findErrorLocation_loop hammingCode expectedCode i errorLocation = Some e \<and>
     (\<forall>m. bit e m \<longleftrightarrow>
        bit errorLocation m \<or>
        (i \<le> m \<and> m < length hammingCode \<and> m < 32 \<and> hammingCode ! m \<noteq> expectedCode ! m))"
proof (induction hammingCode expectedCode i errorLocation rule: findErrorLocation_loop.induct)
  case (1 hammingCode expectedCode i errorLocation)
  show ?case
  proof (cases "i < length hammingCode")
    case False
    then show ?thesis
      by (subst findErrorLocation_loop.simps) auto
  next
    case True
    with "1.prems" have ie: "i < length expectedCode" by simp
    define e' where "e' = (if hammingCode ! i \<noteq> expectedCode ! i
              then errorLocation OR push_bit i 1 else errorLocation)"
    have unfold: "findErrorLocation_loop hammingCode expectedCode i errorLocation =
        findErrorLocation_loop hammingCode expectedCode (i + 1) e'"
      using True ie by (subst findErrorLocation_loop.simps) (simp add: e'_def)
    from "1.IH" [OF True ie "1.prems"]
    obtain e where e: "findErrorLocation_loop hammingCode expectedCode (i + 1) e' = Some e"
      and bits: "\<And>m. bit e m \<longleftrightarrow> bit e' m \<or>
        (i + 1 \<le> m \<and> m < length hammingCode \<and> m < 32 \<and> hammingCode ! m \<noteq> expectedCode ! m)"
      unfolding e'_def by blast
    have e'bits: "bit e' m \<longleftrightarrow> bit errorLocation m \<or>
        (m = i \<and> m < 32 \<and> hammingCode ! m \<noteq> expectedCode ! m)" for m
      by (auto simp: e'_def bit_or_iff bit_exp_iff possible_bit_word)
    have "bit e m \<longleftrightarrow> bit errorLocation m \<or>
        (i \<le> m \<and> m < length hammingCode \<and> m < 32 \<and> hammingCode ! m \<noteq> expectedCode ! m)" for m
      unfolding bits e'bits using True by (auto simp: Suc_le_eq le_less)
    with e unfold show ?thesis by simp
  qed
qed


lemma not_bit_nat_less: "(a::nat) < 2 ^ m \<Longrightarrow> \<not> bit a m"
  by (simp add: bit_iff_odd)

lemma word_xor_eq_0_iff: "(a :: 'a::len word) XOR b = 0 \<longleftrightarrow> a = b"
proof
  assume "a XOR b = 0"
  then have "a XOR (a XOR b) = a" by simp
  then show "a = b" by (simp add: xor.assoc [symmetric])
qed simp

lemma word_eq_xor_iff: "(a :: 'a::len word) = a XOR d \<longleftrightarrow> d = 0"
proof
  assume "a = a XOR d"
  then have "a XOR a = a XOR (a XOR d)" by simp
  then show "d = 0" by (simp add: xor.assoc [symmetric])
qed simp

lemma bit_uint32_of_nat: "bit (of_nat k :: uint32) m \<longleftrightarrow> m < 32 \<and> bit k m"
  by (simp add: bit_of_nat_iff possible_bit_word)

lemma unat_uint32_of_nat: "k < 2 ^ 32 \<Longrightarrow> unat (of_nat k :: uint32) = k"
  by (simp add: unat_of_nat take_bit_nat_eq_self)



lemma findErrorLocation_single:
  assumes len: "length old = length new" and n: "length new < 2 ^ 32"
    and i: "i < length new" and diff: "old ! i \<noteq> new ! i"
    and same: "\<forall>j < length new. j \<noteq> i \<longrightarrow> old ! j = new ! j"
  shows "findErrorLocation new (calculateHammingCode old) = Some (True, of_nat i)"
proof -
  let ?p = "ceillog2 (Suc (length new))"
  have new: "new = old[i := new ! i]"
  proof (rule nth_equalityI)
    show "length new = length (old[i := new ! i])" using len by simp
  next
    fix j assume "j < length new"
    then show "new ! j = old[i := new ! i] ! j"
      using same len by (cases "j = i") simp_all
  qed
  have lo: "length (calculateHammingCode old) = ?p" and ln: "length (calculateHammingCode new) = ?p"
    using n len by (simp_all add: length_calculateHammingCode)
  have p32: "?p \<le> 32" using n by (intro ceillog2_Suc_le) simp
  have "Suc (length new) \<le> 2 ^ ?p" by (rule le_two_power_ceillog2)
  with i have i2p: "i + 1 < 2 ^ ?p" by simp
  have i32: "i + 1 < 2 ^ 32" using i n by simp
  have differ: "calculateHammingCode old ! m \<noteq> calculateHammingCode new ! m \<longleftrightarrow> bit (i + 1) m"
    if "m < ?p" for m
  proof -
    have "calculateHammingCode new ! m = xorOfPositions 1 (old[i := new ! i]) m"
      using that ln new by (simp add: nth_calculateHammingCode)
    also have "\<dots> = xorOfPositions 1 old m XOR (if bit (1 + i) m then old ! i XOR new ! i else 0)"
      using i len by (intro xorOfPositions_update) simp
    finally have "calculateHammingCode new ! m =
        calculateHammingCode old ! m XOR (if bit (i + 1) m then old ! i XOR new ! i else 0)"
      using that lo by (simp add: nth_calculateHammingCode)
    moreover have "old ! i XOR new ! i \<noteq> 0" using diff by (simp add: word_xor_eq_0_iff)
    ultimately show ?thesis by (simp add: word_eq_xor_iff)
  qed
  have "length (calculateHammingCode old) \<le> length (calculateHammingCode new)"
    using lo ln by simp
  from findErrorLocation_loop_Some [OF this, of 0 0]
  obtain e where e: "findErrorLocation_loop (calculateHammingCode old) (calculateHammingCode new) 0 0 = Some e"
    and bits0: "\<forall>m. bit e m \<longleftrightarrow> bit (0::uint32) m \<or> (0 \<le> m \<and> m < length (calculateHammingCode old) \<and> m < 32 \<and>
        calculateHammingCode old ! m \<noteq> calculateHammingCode new ! m)"
    by blast
  have bits: "bit e m \<longleftrightarrow> m < ?p \<and> m < 32 \<and>
        calculateHammingCode old ! m \<noteq> calculateHammingCode new ! m" for m
    using bits0 lo by simp
  have "e = of_nat (i + 1)"
  proof (rule bit_word_eqI)
    fix m assume "m < LENGTH(32)"
    then have m32: "m < 32" by simp
    show "bit e m \<longleftrightarrow> bit (of_nat (i + 1) :: uint32) m"
    proof (cases "m < ?p")
      case True
      then show ?thesis unfolding bit_uint32_of_nat using m32 bits [of m] differ [of m] by simp
    next
      case False
      then have "2 ^ ?p \<le> (2::nat) ^ m" by (intro power_increasing) simp_all
      with i2p have "i + 1 < 2 ^ m" by (rule less_le_trans)
      then have "\<not> bit (i + 1) m" by (rule not_bit_nat_less)
      with False show ?thesis unfolding bit_uint32_of_nat using bits [of m] by simp
    qed
  qed
  have e_eq: "e = of_nat (i + 1)" by fact
  have ue: "unat e = i + 1" unfolding e_eq using i32 by (rule unat_uint32_of_nat)
  have un: "unat (of_nat (length new) :: uint32) = length new"
    using n by (rule unat_uint32_of_nat)
  have "e \<noteq> 0" using ue by auto
  moreover have "\<not> e > of_nat (length new)"
    using ue un i by (simp add: word_less_nat_alt)
  moreover have "e - 1 = of_nat i" using e_eq by simp
  ultimately show ?thesis
    using e by (simp add: findErrorLocation_def Let_def)
qed


section \<open>The byte layout\<close>

lemma mask8_uint64: "(255::uint64) = mask 8" by (simp add: mask_eq_exp_minus_1)

lemma mask8_uint32: "(255::uint32) = mask 8" by (simp add: mask_eq_exp_minus_1)

lemma byte_of_uint64: "bit (ucast (255 AND drop_bit k (x::uint64)) :: byte) m \<longleftrightarrow> m < 8 \<and> bit x (k + m)"
  unfolding mask8_uint64
  by (auto simp: bit_ucast_iff bit_and_iff bit_drop_bit_eq bit_mask_iff possible_bit_word)

lemma byte_of_uint32: "bit (ucast (255 AND drop_bit k (x::uint32)) :: byte) m \<longleftrightarrow> m < 8 \<and> bit x (k + m)"
  unfolding mask8_uint32
  by (auto simp: bit_ucast_iff bit_and_iff bit_drop_bit_eq bit_mask_iff possible_bit_word)

lemma bit_push_byte64:
  "bit (push_bit k (ucast (b::byte)) :: uint64) m \<longleftrightarrow> m < 64 \<and> k \<le> m \<and> m - k < 8 \<and> bit b (m - k)"
  by (auto simp: bit_push_bit_iff bit_ucast_iff possible_bit_word dest: bit_imp_le_length)

lemma bit_push_byte32:
  "bit (push_bit k (ucast (b::byte)) :: uint32) m \<longleftrightarrow> m < 32 \<and> k \<le> m \<and> m - k < 8 \<and> bit b (m - k)"
  by (auto simp: bit_push_bit_iff bit_ucast_iff possible_bit_word dest: bit_imp_le_length)

lemma bit_byte_back64:
  "bit (push_bit k (ucast (ucast (255 AND drop_bit k (x::uint64)) :: byte)) :: uint64) m
     \<longleftrightarrow> k \<le> m \<and> m < k + 8 \<and> bit x m"
  unfolding bit_push_byte64 byte_of_uint64
  by (auto dest: bit_imp_le_length)

lemma bit_byte_back32:
  "bit (push_bit k (ucast (ucast (255 AND drop_bit k (x::uint32)) :: byte)) :: uint32) m
     \<longleftrightarrow> k \<le> m \<and> m < k + 8 \<and> bit x m"
  unfolding bit_push_byte32 byte_of_uint32
  by (auto dest: bit_imp_le_length)

lemma bit_uint64FromSlice:
  "bit (uint64FromSlice [b0, b1, b2, b3, b4, b5, b6, b7]) m \<longleftrightarrow>
     bit (push_bit 0 (ucast b0) :: uint64) m \<or> bit (push_bit 8 (ucast b1) :: uint64) m \<or>
     bit (push_bit 16 (ucast b2) :: uint64) m \<or> bit (push_bit 24 (ucast b3) :: uint64) m \<or>
     bit (push_bit 32 (ucast b4) :: uint64) m \<or> bit (push_bit 40 (ucast b5) :: uint64) m \<or>
     bit (push_bit 48 (ucast b6) :: uint64) m \<or> bit (push_bit 56 (ucast b7) :: uint64) m"
  by (simp add: uint64FromSlice_def bit_or_iff)

lemma uint64FromSlice_uint64ToSlice:
  "uint64FromSlice (take 8 (uint64ToSlice x @ rest)) = x"
proof (rule bit_word_eqI)
  fix m assume "m < LENGTH(64)"
  then have m: "m < 64" by simp
  have t: "take 8 (uint64ToSlice x @ rest) =
      [ucast (255 AND drop_bit 0 x), ucast (255 AND drop_bit 8 x),
       ucast (255 AND drop_bit 16 x), ucast (255 AND drop_bit 24 x),
       ucast (255 AND drop_bit 32 x), ucast (255 AND drop_bit 40 x),
       ucast (255 AND drop_bit 48 x), ucast (255 AND drop_bit 56 x)]"
    by (simp add: uint64ToSlice_def)
  have "bit (uint64FromSlice (take 8 (uint64ToSlice x @ rest))) m \<longleftrightarrow>
      (0 \<le> m \<and> m < 0 + 8 \<and> bit x m) \<or> (8 \<le> m \<and> m < 8 + 8 \<and> bit x m) \<or>
      (16 \<le> m \<and> m < 16 + 8 \<and> bit x m) \<or> (24 \<le> m \<and> m < 24 + 8 \<and> bit x m) \<or>
      (32 \<le> m \<and> m < 32 + 8 \<and> bit x m) \<or> (40 \<le> m \<and> m < 40 + 8 \<and> bit x m) \<or>
      (48 \<le> m \<and> m < 48 + 8 \<and> bit x m) \<or> (56 \<le> m \<and> m < 56 + 8 \<and> bit x m)"
    unfolding t bit_uint64FromSlice bit_byte_back64 ..
  also have "\<dots> \<longleftrightarrow> bit x m"
    using m by (cases "bit x m") auto
  finally show "bit (uint64FromSlice (take 8 (uint64ToSlice x @ rest))) m = bit x m" .
qed

lemma bit_uint32FromBytes:
  "bit (uint32FromBytes s i) m \<longleftrightarrow>
     bit (push_bit 0 (ucast (s ! (i * 4 + 0))) :: uint32) m \<or>
     bit (push_bit 8 (ucast (s ! (i * 4 + 1))) :: uint32) m \<or>
     bit (push_bit 16 (ucast (s ! (i * 4 + 2))) :: uint32) m \<or>
     bit (push_bit 24 (ucast (s ! (i * 4 + 3))) :: uint32) m"
  by (simp add: uint32FromBytes_def bit_or_iff)

lemma length_uint32SliceToByteSlice [simp]:
  "length (uint32SliceToByteSlice ws) = 4 * length ws"
  by (induction ws) (simp_all add: uint32SliceToByteSlice_def uint32ToBytes_def)

lemma nth_uint32SliceToByteSlice:
  "i < length ws \<Longrightarrow> j < 4 \<Longrightarrow>
   uint32SliceToByteSlice ws ! (i * 4 + j) = uint32ToBytes (ws ! i) ! j"
proof (induction ws arbitrary: i)
  case Nil
  then show ?case by simp
next
  case (Cons w ws)
  have len: "length (uint32ToBytes w) = 4" by (simp add: uint32ToBytes_def)
  show ?case
  proof (cases i)
    case 0
    with Cons.prems len show ?thesis
      by (simp add: uint32SliceToByteSlice_def nth_append)
  next
    case (Suc i')
    with Cons.prems have "i' < length ws" by simp
    from Cons.IH [OF this Cons.prems(2)] Suc len show ?thesis
      by (simp add: uint32SliceToByteSlice_def nth_append)
  qed
qed

lemma uint32FromBytes_uint32SliceToByteSlice:
  assumes "i < length ws"
  shows "uint32FromBytes (uint32SliceToByteSlice ws @ extra) i = ws ! i"
proof (rule bit_word_eqI)
  fix m assume "m < LENGTH(32)"
  then have m: "m < 32" by simp
  have nth: "(uint32SliceToByteSlice ws @ extra) ! (i * 4 + j) = uint32ToBytes (ws ! i) ! j"
    if "j < 4" for j
    using assms that by (simp add: nth_append nth_uint32SliceToByteSlice)
  have b: "uint32ToBytes (ws ! i) ! 0 = ucast (255 AND drop_bit 0 (ws ! i))"
    "uint32ToBytes (ws ! i) ! 1 = ucast (255 AND drop_bit 8 (ws ! i))"
    "uint32ToBytes (ws ! i) ! 2 = ucast (255 AND drop_bit 16 (ws ! i))"
    "uint32ToBytes (ws ! i) ! 3 = ucast (255 AND drop_bit 24 (ws ! i))"
    by (simp_all add: uint32ToBytes_def)
  have n: "(uint32SliceToByteSlice ws @ extra) ! (i * 4 + 0) = ucast (255 AND drop_bit 0 (ws ! i))"
    "(uint32SliceToByteSlice ws @ extra) ! (i * 4 + 1) = ucast (255 AND drop_bit 8 (ws ! i))"
    "(uint32SliceToByteSlice ws @ extra) ! (i * 4 + 2) = ucast (255 AND drop_bit 16 (ws ! i))"
    "(uint32SliceToByteSlice ws @ extra) ! (i * 4 + 3) = ucast (255 AND drop_bit 24 (ws ! i))"
    unfolding b [symmetric] by (rule nth, simp)+
  have "bit (uint32FromBytes (uint32SliceToByteSlice ws @ extra) i) m \<longleftrightarrow>
      (0 \<le> m \<and> m < 0 + 8 \<and> bit (ws ! i) m) \<or> (8 \<le> m \<and> m < 8 + 8 \<and> bit (ws ! i) m) \<or>
      (16 \<le> m \<and> m < 16 + 8 \<and> bit (ws ! i) m) \<or> (24 \<le> m \<and> m < 24 + 8 \<and> bit (ws ! i) m)"
    unfolding bit_uint32FromBytes n bit_byte_back32 ..
  also have "\<dots> \<longleftrightarrow> bit (ws ! i) m"
    using m by (cases "bit (ws ! i) m") auto
  finally show "bit (uint32FromBytes (uint32SliceToByteSlice ws @ extra) i) m = bit (ws ! i) m" .
qed

lemma uint32SliceFromByteSlice_uint32SliceToByteSlice:
  assumes "length extra < 4"
  shows "uint32SliceFromByteSlice (uint32SliceToByteSlice ws @ extra) = ws"
proof (rule nth_equalityI)
  show len: "length (uint32SliceFromByteSlice (uint32SliceToByteSlice ws @ extra)) = length ws"
    using assms by (simp add: uint32SliceFromByteSlice_def)
  fix i assume "i < length (uint32SliceFromByteSlice (uint32SliceToByteSlice ws @ extra))"
  with len have i: "i < length ws" by simp
  then have "i < (4 * length ws + length extra) div 4" using assms by simp
  then show "uint32SliceFromByteSlice (uint32SliceToByteSlice ws @ extra) ! i = ws ! i"
    using i by (simp add: uint32SliceFromByteSlice_def uint32FromBytes_uint32SliceToByteSlice)
qed


section \<open>Field infos and hashes\<close>

lemma write32a_append: "write32a (write32a h as) bs = write32a h (as @ bs)"
  by (simp add: write32a_def)

lemma write64a_append: "write64a (write64a h as) bs = write64a h (as @ bs)"
  by (simp add: write64a_def)

lemma write64a_Nil [simp]: "write64a h [] = h"
  by (simp add: write64a_def)

lemma getHashes_loop_eq:
  "getHashes_loop fprintf infos fullHash fieldHashes =
     (write64a fullHash (concat (map (hashInput fprintf) infos)),
      fieldHashes @ map (\<lambda>info. write32a offset32 (hashInput fprintf info)) infos)"
  by (induction infos arbitrary: fullHash fieldHashes)
    (simp_all add: multiWrite_def Let_def write32a_append write64a_append hashInput_def)

lemma getHashes_eq:
  "getHashes fprintf infos =
     (write64a offset64 (concat (map (hashInput fprintf) infos)),
      map (\<lambda>info. write32a offset32 (hashInput fprintf info)) infos)"
  by (simp add: getHashes_def getHashes_loop_eq)

lemma hashInput_fun:
  "hashInput fprintf = (\<lambda>info. bytes_of (name info) @ fprintf (fieldValue info))"
  by (rule ext) (simp add: hashInput_def)

lemma length_snd_getHashes [simp]: "length (snd (getHashes fprintf infos)) = length infos"
  by (simp add: getHashes_eq)

lemma tagGet_empty_iff: "tagGet sf = [] \<longleftrightarrow> infohashTag sf = None \<or> infohashTag sf = Some []"
  by (simp add: tagGet_def split: option.splits)

lemma getFieldInfos_loop_Inr:
  "(\<forall>sf \<in> set sfs. tagGet sf \<noteq> [] \<and> exported sf) \<Longrightarrow> distinct (map tagGet sfs) \<Longrightarrow>
   tagGet ` set sfs \<inter> tags = {} \<Longrightarrow>
   getFieldInfos_loop sfs tags acc = Inr (acc @ map toFieldInfo sfs)"
  by (induction sfs arbitrary: tags acc) (auto simp: Let_def toFieldInfo_def)

lemma getFieldInfos_loop_Inr_D:
  "getFieldInfos_loop sfs tags acc = Inr infos \<Longrightarrow>
   (\<forall>sf \<in> set sfs. tagGet sf \<noteq> [] \<and> exported sf) \<and> distinct (map tagGet sfs) \<and>
   tagGet ` set sfs \<inter> tags = {}"
proof (induction sfs arbitrary: tags acc)
  case Nil
  then show ?case by simp
next
  case (Cons sf sfs)
  from Cons.prems have ok: "tagGet sf \<noteq> []" "tagGet sf \<notin> tags" "exported sf"
    and rest: "getFieldInfos_loop sfs (insert (tagGet sf) tags)
        (acc @ [\<lparr>name = tagGet sf, fieldValue = storedValue sf\<rparr>]) = Inr infos"
    by (simp_all add: Let_def split: if_splits)
  from Cons.IH [OF rest] ok show ?case by auto
qed


lemma getFieldInfos_loop_Err_D:
  "getFieldInfos_loop sfs tags acc = Inl (Err err) \<Longrightarrow>
   (\<exists>sf \<in> set sfs. tagGet sf = []) \<or> \<not> distinct (map tagGet sfs) \<or>
   tagGet ` set sfs \<inter> tags \<noteq> {}"
proof (induction sfs arbitrary: tags acc)
  case Nil
  then show ?case by simp
next
  case (Cons sf sfs)
  show ?case
  proof (cases "tagGet sf = [] \<or> tagGet sf \<in> tags")
    case True
    then show ?thesis by auto
  next
    case False
    with Cons.prems have "getFieldInfos_loop sfs (insert (tagGet sf) tags)
        (acc @ [\<lparr>name = tagGet sf, fieldValue = storedValue sf\<rparr>]) = Inl (Err err)"
      by (simp add: Let_def split: if_splits)
    from Cons.IH [OF this] show ?thesis by auto
  qed
qed


lemma wellFormed_PointerToStruct:
  "wellFormed (PointerToStruct sfs) \<longleftrightarrow>
     (\<forall>sf \<in> set sfs. tagGet sf \<noteq> []) \<and> distinct (map tagGet sfs)"
  by (simp add: wellFormed_def tagGet_empty_iff)

lemma fieldsExported_PointerToStruct [simp]:
  "fieldsExported (PointerToStruct sfs) \<longleftrightarrow> (\<forall>sf \<in> set sfs. exported sf)"
  by (simp add: fieldsExported_def)

lemma getFieldInfos_wellFormed:
  "wellFormed (PointerToStruct sfs) \<Longrightarrow> \<forall>sf \<in> set sfs. exported sf \<Longrightarrow>
   getFieldInfos (PointerToStruct sfs) = Inr (sort_key name (map toFieldInfo sfs))"
  using getFieldInfos_loop_Inr [of sfs "{}" "[]"]
  by (simp add: getFieldInfos_def wellFormed_PointerToStruct)

lemma getFieldInfos_Inr_iff:
  "(\<exists>infos. getFieldInfos obj = Inr infos) \<longleftrightarrow> wellFormed obj \<and> fieldsExported obj"
proof (cases obj)
  case (PointerToStruct sfs)
  show ?thesis
  proof
    assume "\<exists>infos. getFieldInfos obj = Inr infos"
    then obtain infos where "getFieldInfos_loop sfs {} [] = Inr infos"
      unfolding PointerToStruct by (auto simp: getFieldInfos_def split: sum.splits)
    from getFieldInfos_loop_Inr_D [OF this] show "wellFormed obj \<and> fieldsExported obj"
      unfolding PointerToStruct by (simp add: wellFormed_PointerToStruct)
  next
    assume "wellFormed obj \<and> fieldsExported obj"
    then show "\<exists>infos. getFieldInfos obj = Inr infos"
      unfolding PointerToStruct using getFieldInfos_wellFormed [of sfs] by simp
  qed
qed (simp_all add: getFieldInfos_def wellFormed_def)

lemma getFieldInfos_Inr_D:
  assumes "getFieldInfos (PointerToStruct sfs) = Inr infos"
  shows "wellFormed (PointerToStruct sfs)" and "\<forall>sf \<in> set sfs. exported sf"
    and "infos = sort_key name (map toFieldInfo sfs)"
proof -
  from assms have "wellFormed (PointerToStruct sfs) \<and> fieldsExported (PointerToStruct sfs)"
    using getFieldInfos_Inr_iff [of "PointerToStruct sfs"] by blast
  then show wf: "wellFormed (PointerToStruct sfs)" and ex: "\<forall>sf \<in> set sfs. exported sf"
    by simp_all
  from getFieldInfos_wellFormed [OF wf ex] assms
  show "infos = sort_key name (map toFieldInfo sfs)" by simp
qed

lemma getFieldInfos_Err_D:
  "getFieldInfos obj = Inl (Err err) \<Longrightarrow> \<not> wellFormed obj"
proof (cases obj)
  case (PointerToStruct sfs)
  assume "getFieldInfos obj = Inl (Err err)"
  then have "getFieldInfos_loop sfs {} [] = Inl (Err err)"
    unfolding PointerToStruct by (simp add: getFieldInfos_def split: sum.splits)
  from getFieldInfos_loop_Err_D [OF this] show ?thesis
    unfolding PointerToStruct wellFormed_PointerToStruct by auto
qed (simp_all add: wellFormed_def)



lemma getFieldInfos_wellFormed_unexported:
  assumes "wellFormed (PointerToStruct sfs)" and "\<not> (\<forall>sf \<in> set sfs. exported sf)"
  shows "getFieldInfos (PointerToStruct sfs) = Inl InterfacePanic"
proof (cases "getFieldInfos (PointerToStruct sfs)")
  case (Inr infos)
  from getFieldInfos_Inr_D(2) [OF this] assms(2) show ?thesis by simp
next
  case (Inl failed)
  show ?thesis
  proof (cases failed)
    case (Err err)
    with Inl getFieldInfos_Err_D [of "PointerToStruct sfs" err] assms(1) show ?thesis by simp
  next
    case InterfacePanic
    with Inl show ?thesis by simp
  qed
qed

lemma name_toFieldInfo [simp]: "name (toFieldInfo sf) = tagGet sf"
  by (simp add: toFieldInfo_def)

lemma filter_key_singleton:
  "distinct (map f zs) \<Longrightarrow> k \<in> set zs \<Longrightarrow> filter (\<lambda>x. f k = f x) zs = [k]"
proof (induction zs)
  case Nil
  then show ?case by simp
next
  case (Cons z zs)
  show ?case
  proof (cases "k = z")
    case True
    have "filter (\<lambda>x. f z = f x) zs = []"
      using Cons.prems(1) by (auto simp: filter_empty_conv)
    with True show ?thesis by simp
  next
    case False
    with Cons.prems have k: "k \<in> set zs" by simp
    then have "f k \<in> f ` set zs" by (rule imageI)
    then have "f k \<noteq> f z" using Cons.prems(1) by auto
    with Cons.IH k Cons.prems(1) show ?thesis by simp
  qed
qed

lemma distinct_map_mset_cong:
  assumes "mset xs = mset ys" "distinct (map f xs)"
  shows "distinct (map f ys)"
proof -
  have "mset (map f xs) = mset (map f ys)" using assms(1) by simp
  then show ?thesis using assms(2) by (metis mset_eq_imp_distinct_iff)
qed

lemma sort_key_distinct_unique:
  assumes "mset xs = mset ys" "distinct (map f xs)"
  shows "sort_key f xs = sort_key f ys"
proof (rule properties_for_sort_key [symmetric])
  show "mset (sort_key f xs) = mset ys" using assms by simp
  show "sorted (map f (sort_key f xs))" by simp
  fix k assume "k \<in> set (sort_key f xs)"
  then have kx: "k \<in> set xs" by simp
  then have ky: "k \<in> set ys" using assms(1) by (metis mset_eq_setD)
  have "mset (sort_key f xs) = mset xs" by simp
  then have "distinct (map f (sort_key f xs))"
    using assms(2) by (metis distinct_map_mset_cong)
  then have "filter (\<lambda>x. f k = f x) (sort_key f xs) = [k]"
    using kx by (intro filter_key_singleton) simp_all
  moreover have "filter (\<lambda>x. f k = f x) ys = [k]"
    using assms ky by (intro filter_key_singleton distinct_map_mset_cong [of xs ys f])
  ultimately show "filter (\<lambda>x. f k = f x) (sort_key f xs) = filter (\<lambda>x. f k = f x) ys"
    by simp
qed

lemma sort_key_map_commute:
  assumes "\<And>x. f (g x) = f x"
  shows "sort_key f (map g xs) = map g (sort_key f xs)"
proof -
  have ins: "insort_key f (g x) (map g ys) = map g (insort_key f x ys)" for x ys
    by (induction ys) (simp_all add: assms)
  show ?thesis
    by (induction xs) (simp_all add: ins)
qed

lemma sort_key_map_key:
  "map g (sort_key (\<lambda>x. f (g x)) xs) = sort_key f (map g xs)"
proof -
  have ins: "map g (insort_key (\<lambda>x. f (g x)) x ys) = insort_key f (g x) (map g ys)" for x ys
    by (induction ys) simp_all
  show ?thesis
    by (induction xs) (simp_all add: ins)
qed

lemma sorted_infos_pairs:
  "map (\<lambda>info. (name info, fprintf (fieldValue info))) (sort_key name (map toFieldInfo sfs)) =
   sort_key fst (map (identifierAndSerialized fprintf) sfs)"
proof -
  have "map (\<lambda>info. (name info, fprintf (fieldValue info))) (sort_key name (map toFieldInfo sfs)) =
      sort_key fst (map (\<lambda>info. (name info, fprintf (fieldValue info))) (map toFieldInfo sfs))"
  proof -
    have key: "(\<lambda>x. fst (name x, fprintf (fieldValue x))) = name" by simp
    show ?thesis
      using sort_key_map_key [of "\<lambda>info. (name info, fprintf (fieldValue info))" fst "map toFieldInfo sfs"]
      unfolding key .
  qed
  also have "map (\<lambda>info. (name info, fprintf (fieldValue info))) (map toFieldInfo sfs) =
      map (identifierAndSerialized fprintf) sfs"
    by (simp add: identifierAndSerialized_def toFieldInfo_def)
  finally show ?thesis .
qed

lemma getHashes_pairs:
  "getHashes fprintf infos =
     (write64a offset64 (concat (map (\<lambda>p. bytes_of (fst p) @ snd p)
        (map (\<lambda>info. (name info, fprintf (fieldValue info))) infos))),
      map (\<lambda>p. write32a offset32 (bytes_of (fst p) @ snd p))
        (map (\<lambda>info. (name info, fprintf (fieldValue info))) infos))"
  by (simp add: getHashes_eq hashInput_fun comp_def)

lemma same_pairs_same_results:
  assumes "map (\<lambda>info. (name info, fprintf (fieldValue info))) infos1 =
           map (\<lambda>info. (name info, fprintf (fieldValue info))) infos2"
  shows "getHashes fprintf infos1 = getHashes fprintf infos2"
    and "map name infos1 = map name infos2"
proof -
  show "getHashes fprintf infos1 = getHashes fprintf infos2"
    unfolding getHashes_pairs assms ..
  have "map fst (map (\<lambda>info. (name info, fprintf (fieldValue info))) infos1) =
        map fst (map (\<lambda>info. (name info, fprintf (fieldValue info))) infos2)"
    unfolding assms ..
  then show "map name infos1 = map name infos2" by (simp add: comp_def)
qed

lemma sorted_getFieldInfos:
  assumes "getFieldInfos (PointerToStruct sfs) = Inr infos"
  shows "sorted (map name infos)" and "distinct (map name infos)"
    and "mset infos = mset (map toFieldInfo sfs)"
proof -
  note d = getFieldInfos_Inr_D [OF assms]
  have "distinct (map name (map toFieldInfo sfs))"
    using d(1) unfolding wellFormed_PointerToStruct by (simp add: comp_def)
  moreover have "mset (map toFieldInfo sfs) = mset (sort_key name (map toFieldInfo sfs))" by simp
  ultimately have "distinct (map name (sort_key name (map toFieldInfo sfs)))"
    by (rule distinct_map_mset_cong [of "map toFieldInfo sfs" "sort_key name (map toFieldInfo sfs)" name, rotated])
  then show "distinct (map name infos)" unfolding d(3) .
  show "sorted (map name infos)" unfolding d(3) by simp
  show "mset infos = mset (map toFieldInfo sfs)" unfolding d(3) by simp
qed

section \<open>HashStruct and CompareHashStruct\<close>

lemma length_hashInfo:
  "length (hashInfo fprintf infos) =
     8 + 4 * length (calculateHammingCode (snd (getHashes fprintf infos)))"
  by (simp add: hashInfo_def Let_def split_beta uint64ToSlice_def)

lemma HashStruct_wellFormed:
  "wellFormed (PointerToStruct sfs) \<Longrightarrow> \<forall>sf \<in> set sfs. exported sf \<Longrightarrow>
   HashStruct fprintf (PointerToStruct sfs) =
     Inr (hashInfo fprintf (sort_key name (map toFieldInfo sfs)))"
  by (simp add: HashStruct_def getFieldInfos_wellFormed)

lemma HashStruct_Inr_D:
  assumes "HashStruct fprintf (PointerToStruct sfs) = Inr h"
  shows "wellFormed (PointerToStruct sfs)" and "\<forall>sf \<in> set sfs. exported sf"
    and "h = hashInfo fprintf (sort_key name (map toFieldInfo sfs))"
proof -
  from assms obtain infos where infos: "getFieldInfos (PointerToStruct sfs) = Inr infos"
    by (auto simp: HashStruct_def split: sum.splits)
  note d = getFieldInfos_Inr_D [OF infos]
  show "wellFormed (PointerToStruct sfs)" and "\<forall>sf \<in> set sfs. exported sf"
    by (rule d(1), rule d(2))
  from assms infos d(3) show "h = hashInfo fprintf (sort_key name (map toFieldInfo sfs))"
    by (simp add: HashStruct_def)
qed

lemma CompareHashStruct_Inr:
  assumes "getFieldInfos obj = Inr infos"
  shows "CompareHashStruct fprintf obj s =
    (if length (elems s) + length (beyondLen s) < 8 then Panic
     else if uint64FromSlice (take 8 (elems s @ beyondLen s)) = fst (getHashes fprintf infos)
       then NoError
     else if length (elems s) < 8 then Panic
     else (case findErrorLocation (snd (getHashes fprintf infos))
                 (uint32SliceFromByteSlice (drop 8 (elems s))) of
             None \<Rightarrow> Panic
           | Some (foundLocation, location) \<Rightarrow>
               if \<not> foundLocation then FieldChangedError []
               else if unat location < length infos
               then FieldChangedError (name (infos ! unat location))
               else Panic))"
  using assms by (simp add: CompareHashStruct_def Let_def split_beta)


lemma CompareHashStruct_cong:
  assumes i1: "getFieldInfos obj1 = Inr infos1" and i2: "getFieldInfos obj2 = Inr infos2"
    and h: "getHashes fprintf infos1 = getHashes fprintf infos2"
    and n: "map name infos1 = map name infos2"
  shows "CompareHashStruct fprintf obj1 s = CompareHashStruct fprintf obj2 s"
proof -
  have len: "length infos1 = length infos2" using n by (rule map_eq_imp_length_eq)
  have nth: "name (infos1 ! j) = name (infos2 ! j)" if "j < length infos1" for j
  proof -
    have "map name infos1 ! j = map name infos2 ! j" using n by simp
    then show ?thesis using that len by simp
  qed
  show ?thesis
    unfolding CompareHashStruct_Inr [OF i1] CompareHashStruct_Inr [OF i2] h len
    using nth len by (auto split: option.splits)
qed

lemma take8_hashInfo:
  "take 8 (hashInfo fprintf infos) = uint64ToSlice (fst (getHashes fprintf infos))"
  by (simp add: hashInfo_def Let_def split_beta uint64ToSlice_def)

lemma drop8_hashInfo:
  "drop 8 (hashInfo fprintf infos) =
     uint32SliceToByteSlice (calculateHammingCode (snd (getHashes fprintf infos)))"
  by (simp add: hashInfo_def Let_def split_beta uint64ToSlice_def)

lemma stored_full_hashInfo:
  "uint64FromSlice (take 8 (hashInfo fprintf infos @ beyond)) = fst (getHashes fprintf infos)"
proof -
  have "hashInfo fprintf infos @ beyond =
      uint64ToSlice (fst (getHashes fprintf infos)) @
        (uint32SliceToByteSlice (calculateHammingCode (snd (getHashes fprintf infos))) @ beyond)"
    by (simp add: hashInfo_def Let_def split_beta)
  then show ?thesis by (simp only: uint64FromSlice_uint64ToSlice)
qed

lemma stored_parity_hashInfo:
  "uint32SliceFromByteSlice (drop 8 (hashInfo fprintf infos)) =
     calculateHammingCode (snd (getHashes fprintf infos))"
  using uint32SliceFromByteSlice_uint32SliceToByteSlice [of "[]"]
  by (simp add: drop8_hashInfo)

lemma single_field_compare:
  assumes wf: "wellFormed (PointerToStruct sfs)" and ex: "\<forall>sf \<in> set sfs. exported sf"
    and n: "length sfs < 2 ^ 32"
    and i: "i < length sfs"
    and full: "take 8 (hashInfo fprintf (sort_key name (map toFieldInfo (sfs[i := (sfs ! i)\<lparr>storedValue := v\<rparr>]))))
        \<noteq> take 8 (hashInfo fprintf (sort_key name (map toFieldInfo sfs)))"
    and cs: "write32a offset32 (bytes_of (tagGet (sfs ! i)) @ fprintf v)
        \<noteq> write32a offset32 (bytes_of (tagGet (sfs ! i)) @ fprintf (storedValue (sfs ! i)))"
  shows "CompareHashStruct fprintf (PointerToStruct (sfs[i := (sfs ! i)\<lparr>storedValue := v\<rparr>]))
      \<lparr>elems = hashInfo fprintf (sort_key name (map toFieldInfo sfs)), beyondLen = beyond\<rparr>
    = FieldChangedError (tagGet (sfs ! i))"
proof -
  define t where "t = tagGet (sfs ! i)"
  define sfs' where "sfs' = sfs[i := (sfs ! i)\<lparr>storedValue := v\<rparr>]"
  define g :: "'a fieldInfo \<Rightarrow> 'a fieldInfo"
    where "g = (\<lambda>info. if name info = t then info\<lparr>fieldValue := v\<rparr> else info)"
  define X where "X = map toFieldInfo sfs"
  define infos where "infos = sort_key name X"
  define c where "c = (\<lambda>info. write32a offset32 (hashInput fprintf info))"
  have name_g: "name (g x) = name x" for x by (simp add: g_def)
  have dist: "distinct (map tagGet sfs)" and nonempty: "\<forall>sf \<in> set sfs. tagGet sf \<noteq> []"
    using wf by (simp_all add: wellFormed_PointerToStruct)
  have X': "map toFieldInfo sfs' = map g X"
  proof (rule nth_equalityI)
    show "length (map toFieldInfo sfs') = length (map g X)" by (simp add: sfs'_def X_def)
    fix j assume "j < length (map toFieldInfo sfs')"
    then have j: "j < length sfs" by (simp add: sfs'_def)
    show "map toFieldInfo sfs' ! j = map g X ! j"
    proof (cases "j = i")
      case True
      then show ?thesis using i
        by (simp add: sfs'_def X_def g_def toFieldInfo_def t_def tagGet_def)
    next
      case False
      have "tagGet (sfs ! j) \<noteq> t"
        using nth_eq_iff_index_eq [OF dist, of j i] False i j by (simp add: t_def)
      then show ?thesis using False j
        by (simp add: sfs'_def X_def g_def toFieldInfo_def)
    qed
  qed
  have tags': "map tagGet sfs' = map tagGet sfs"
  proof -
    have "map name (map toFieldInfo sfs') = map name (map g X)" by (simp only: X')
    then show ?thesis by (simp add: X_def comp_def name_g)
  qed
  have "set (map tagGet sfs') = set (map tagGet sfs)" by (simp only: tags')
  then have "tagGet ` set sfs' = tagGet ` set sfs" by simp
  moreover have "[] \<notin> tagGet ` set sfs" using nonempty by auto
  ultimately have "[] \<notin> tagGet ` set sfs'" by simp
  then have "\<forall>sf \<in> set sfs'. tagGet sf \<noteq> []" by (auto simp: image_iff)
  have ex': "\<forall>sf \<in> set sfs'. exported sf"
  proof
    fix sf assume "sf \<in> set sfs'"
    then have "sf \<in> insert ((sfs ! i)\<lparr>storedValue := v\<rparr>) (set sfs)"
      unfolding sfs'_def using set_update_subset_insert by fast
    then show "exported sf" using ex i by auto
  qed
  from \<open>[] \<notin> tagGet ` set sfs'\<close> have "\<forall>sf \<in> set sfs'. tagGet sf \<noteq> []" by (auto simp: image_iff)
  then have wf': "wellFormed (PointerToStruct sfs')"
    using dist by (simp add: wellFormed_PointerToStruct tags')
  have infos': "sort_key name (map toFieldInfo sfs') = map g infos"
    unfolding X' infos_def by (rule sort_key_map_commute) (rule name_g)
  have gi': "getFieldInfos (PointerToStruct sfs') = Inr (map g infos)"
    using getFieldInfos_wellFormed [OF wf' ex'] by (simp only: infos')
  have len_infos: "length infos = length sfs" by (simp add: infos_def X_def)
  have dnames: "distinct (map name infos)"
    using sorted_getFieldInfos(2) [OF getFieldInfos_wellFormed [OF wf ex]]
    by (simp add: infos_def X_def)
  have "toFieldInfo (sfs ! i) \<in> set X" using i by (simp add: X_def)
  then have "toFieldInfo (sfs ! i) \<in> set infos" by (simp add: infos_def)
  then obtain k where k: "k < length infos" and ik: "infos ! k = toFieldInfo (sfs ! i)"
    by (auto simp: in_set_conv_nth)
  have name_k: "name (infos ! k) = t" by (simp add: ik t_def)
  have other: "name (infos ! j) \<noteq> t" if "j < length infos" "j \<noteq> k" for j
  proof -
    show ?thesis
      using nth_eq_iff_index_eq [OF dnames, of j k] that k name_k by simp
  qed
  let ?old = "snd (getHashes fprintf infos)"
  let ?new = "snd (getHashes fprintf (map g infos))"
  have old: "?old = map c infos" and new: "?new = map c (map g infos)"
    by (simp_all add: getHashes_eq c_def)
  have "c (g (infos ! k)) = write32a offset32 (bytes_of t @ fprintf v)"
    by (simp add: c_def g_def name_k hashInput_def)
  moreover have "c (infos ! k) = write32a offset32 (bytes_of t @ fprintf (storedValue (sfs ! i)))"
    by (simp add: c_def ik hashInput_def toFieldInfo_def t_def)
  ultimately have differ: "?old ! k \<noteq> ?new ! k"
    using cs k by (simp add: old new t_def)
  have fix_other: "g (infos ! j) = infos ! j" if "j < length infos" "j \<noteq> k" for j
    using other [OF that] by (simp add: g_def)
  have same: "\<forall>j < length ?new. j \<noteq> k \<longrightarrow> ?old ! j = ?new ! j"
    using fix_other by (simp add: old new)
  have found: "findErrorLocation ?new (calculateHammingCode ?old) = Some (True, of_nat k)"
    using differ same k n len_infos
    by (intro findErrorLocation_single) simp_all
  have uk: "unat (of_nat k :: uint32) = k"
    using k n len_infos by (intro unat_uint32_of_nat) simp
  from full have "take 8 (hashInfo fprintf (sort_key name (map toFieldInfo sfs')))
      \<noteq> take 8 (hashInfo fprintf infos)"
    unfolding sfs'_def infos_def X_def .
  then have "take 8 (hashInfo fprintf (map g infos)) \<noteq> take 8 (hashInfo fprintf infos)"
    unfolding infos' .
  then have fulldiff: "fst (getHashes fprintf infos) \<noteq> fst (getHashes fprintf (map g infos))"
    unfolding take8_hashInfo by auto
  have "CompareHashStruct fprintf (PointerToStruct sfs')
      \<lparr>elems = hashInfo fprintf infos, beyondLen = beyond\<rparr> = FieldChangedError (name (map g infos ! k))"
    using fulldiff found k uk
    by (simp add: CompareHashStruct_Inr [OF gi'] stored_full_hashInfo
        stored_full_hashInfo [of _ _ "[]", simplified] stored_parity_hashInfo length_hashInfo)
  moreover have "name (map g infos ! k) = tagGet (sfs ! i)"
    using k by (simp add: name_g name_k t_def [symmetric])
  ultimately show ?thesis
    by (simp only: sfs'_def infos_def X_def)
qed


section \<open>The examples, evaluated\<close>

text \<open>
  The model gives the struct of \<open>TestHashStatic\<close> the fingerprint that the test
  expects, \<open>5d69bd36c3021e652f75a61a8bfcacedd54dff048b9eb95c\<close>.
\<close>

lemma TestHashStatic:
  "HashStruct bytes_of (PointerToStruct testStruct) =
     Inr [93, 105, 189, 54, 195, 2, 30, 101, 47, 117, 166, 26, 139, 252, 172, 237, 213, 77, 255, 4, 139, 158, 185, 92]"
  by code_simp

lemma HashStruct_glzg: "HashStruct spewString (PointerToStruct (oneField ''glzg'')) = Inr hashOfGlzg"
  by code_simp

lemma HashStruct_xyz:
  "HashStruct spewString (PointerToStruct (threeFields ''x'' ''y'' ''z'')) = Inr hashOfXYZ"
  by code_simp

lemma HashStruct_xy2z:
  "HashStruct spewString (PointerToStruct (threeFields ''x'' ''y2'' ''z'')) = Inr hashOfXY2Z"
  by code_simp



lemma update_xyz:
  "(threeFields ''x'' ''y'' ''z'')[1 := (threeFields ''x'' ''y'' ''z'' ! 1)\<lparr>storedValue := ''y2''\<rparr>]
     = threeFields ''x'' ''y2'' ''z''"
  by (simp add: threeFields_def)


section \<open>The claims\<close>

subsection \<open>C1: a single changed field is named\<close>

text \<open>
  Claim C1, as amended. Let one field \<open>i\<close> of a well-formed record with fewer than
  \<open>2^32\<close> fields be given a new value \<open>v\<close>, such that the 32-bit checksum of that
  field changes and the 64-bit full checksum (the first eight bytes of the fingerprint)
  changes. Then \<open>CompareHashStruct\<close> on the new record and the fingerprint \<open>h\<close> of the
  old one returns a \<open>FieldChangedError\<close> whose \<open>Field\<close> is the tag of field \<open>i\<close>. At the
  level of the parity words: when the old and the new checksum vector have the same
  length below \<open>2^32\<close> and differ at position \<open>j\<close> only, \<open>findErrorLocation\<close> on the
  new vector and the Hamming code of the old one returns \<open>(true, j)\<close>.
\<close>

theorem single_change_localized:
  "(length sfs < 2 ^ 32 \<and> i < length sfs \<and>
    HashStruct fprintf (PointerToStruct sfs) = Inr h \<and>
    HashStruct fprintf (PointerToStruct (sfs[i := (sfs ! i)\<lparr>storedValue := v\<rparr>])) = Inr h' \<and>
    take 8 h' \<noteq> take 8 h \<and>
    snd (getHashes fprintf [\<lparr>name = tagGet (sfs ! i), fieldValue = v\<rparr>]) \<noteq>
    snd (getHashes fprintf [\<lparr>name = tagGet (sfs ! i), fieldValue = storedValue (sfs ! i)\<rparr>])
    \<longrightarrow> CompareHashStruct fprintf (PointerToStruct (sfs[i := (sfs ! i)\<lparr>storedValue := v\<rparr>]))
          \<lparr>elems = h, beyondLen = beyond\<rparr> = FieldChangedError (tagGet (sfs ! i)))
   \<and> (length old = length new \<and> length new < 2 ^ 32 \<and> j < length new \<and>
      old ! j \<noteq> new ! j \<and> (\<forall>m < length new. m \<noteq> j \<longrightarrow> old ! m = new ! m)
      \<longrightarrow> findErrorLocation new (calculateHammingCode old) = Some (True, of_nat j))"
proof (intro conjI impI)
  assume a: "length sfs < 2 ^ 32 \<and> i < length sfs \<and>
    HashStruct fprintf (PointerToStruct sfs) = Inr h \<and>
    HashStruct fprintf (PointerToStruct (sfs[i := (sfs ! i)\<lparr>storedValue := v\<rparr>])) = Inr h' \<and>
    take 8 h' \<noteq> take 8 h \<and>
    snd (getHashes fprintf [\<lparr>name = tagGet (sfs ! i), fieldValue = v\<rparr>]) \<noteq>
    snd (getHashes fprintf [\<lparr>name = tagGet (sfs ! i), fieldValue = storedValue (sfs ! i)\<rparr>])"
  then have h: "HashStruct fprintf (PointerToStruct sfs) = Inr h"
    and h': "HashStruct fprintf (PointerToStruct (sfs[i := (sfs ! i)\<lparr>storedValue := v\<rparr>])) = Inr h'"
    by simp_all
  note hd = HashStruct_Inr_D [OF h] and hd' = HashStruct_Inr_D [OF h']
  have full: "take 8 (hashInfo fprintf (sort_key name (map toFieldInfo (sfs[i := (sfs ! i)\<lparr>storedValue := v\<rparr>]))))
        \<noteq> take 8 (hashInfo fprintf (sort_key name (map toFieldInfo sfs)))"
    using a unfolding hd(3) [symmetric] hd'(3) [symmetric] by simp
  have cs: "write32a offset32 (bytes_of (tagGet (sfs ! i)) @ fprintf v)
        \<noteq> write32a offset32 (bytes_of (tagGet (sfs ! i)) @ fprintf (storedValue (sfs ! i)))"
    using a by (simp add: getHashes_eq hashInput_def)
  from a have "length sfs < 2 ^ 32" "i < length sfs" by simp_all
  from single_field_compare [OF hd(1) hd(2) this full cs, of beyond]
  show "CompareHashStruct fprintf (PointerToStruct (sfs[i := (sfs ! i)\<lparr>storedValue := v\<rparr>]))
          \<lparr>elems = h, beyondLen = beyond\<rparr> = FieldChangedError (tagGet (sfs ! i))"
    unfolding hd(3) [symmetric] .
next
  assume "length old = length new \<and> length new < 2 ^ 32 \<and> j < length new \<and>
      old ! j \<noteq> new ! j \<and> (\<forall>m < length new. m \<noteq> j \<longrightarrow> old ! m = new ! m)"
  then show "findErrorLocation new (calculateHammingCode old) = Some (True, of_nat j)"
    by (intro findErrorLocation_single) simp_all
qed

text \<open>
  The claim as stated, for every different serialized value, fails where FNV-1a
  collides: with the tag \<open>a\<close>, the strings \<open>glzg\<close> and \<open>wvoaa\<close> are serialized
  differently and get the same 32-bit field checksum but different full checksums, so
  the comparison returns a \<open>FieldChangedError\<close> with an empty \<open>Field\<close>.
\<close>

theorem single_field_collision_counterexample:
  "spewString ''glzg'' \<noteq> spewString ''wvoaa''
   \<and> wellFormed (PointerToStruct (oneField ''glzg''))
   \<and> (oneField ''glzg'')[0 := (oneField ''glzg'' ! 0)\<lparr>storedValue := ''wvoaa''\<rparr>] = oneField ''wvoaa''
   \<and> HashStruct spewString (PointerToStruct (oneField ''glzg'')) = Inr hashOfGlzg
   \<and> CompareHashStruct spewString (PointerToStruct (oneField ''wvoaa'')) (sliceOf hashOfGlzg)
       = FieldChangedError []
   \<and> CompareHashStruct spewString (PointerToStruct (oneField ''wvoaa'')) (sliceOf hashOfGlzg)
       \<noteq> FieldChangedError (tagGet (oneField ''glzg'' ! 0))"
proof (intro conjI)
  show "spewString ''glzg'' \<noteq> spewString ''wvoaa''" by code_simp
  show "wellFormed (PointerToStruct (oneField ''glzg''))" by code_simp
  show "(oneField ''glzg'')[0 := (oneField ''glzg'' ! 0)\<lparr>storedValue := ''wvoaa''\<rparr>] = oneField ''wvoaa''"
    by (simp add: oneField_def)
  show "HashStruct spewString (PointerToStruct (oneField ''glzg'')) = Inr hashOfGlzg"
    by (rule HashStruct_glzg)
  show "CompareHashStruct spewString (PointerToStruct (oneField ''wvoaa'')) (sliceOf hashOfGlzg)
       = FieldChangedError []"
    by code_simp
  show "CompareHashStruct spewString (PointerToStruct (oneField ''wvoaa'')) (sliceOf hashOfGlzg)
       \<noteq> FieldChangedError (tagGet (oneField ''glzg'' ! 0))"
    by code_simp
qed

text \<open>
  The amended statement at the three-field struct, with \<open>y\<close> changed to \<open>y2\<close>, and at
  the checksum vectors \<open>[1, 2, 3]\<close> and \<open>[1, 9, 3]\<close>.
\<close>

theorem single_change_localized_witness:
  "CompareHashStruct spewString (PointerToStruct (threeFields ''x'' ''y2'' ''z''))
     \<lparr>elems = hashOfXYZ, beyondLen = []\<rparr> = FieldChangedError ''b''
   \<and> findErrorLocation [1, 9, 3] (calculateHammingCode [1, 2, 3]) = Some (True, 1)"
proof -
  let ?sfs = "threeFields ''x'' ''y'' ''z''"
  have a: "length ?sfs < 2 ^ 32" "1 < length ?sfs" by (simp_all add: threeFields_def)
  have b: "HashStruct spewString (PointerToStruct (?sfs[1 := (?sfs ! 1)\<lparr>storedValue := ''y2''\<rparr>])) = Inr hashOfXY2Z"
    unfolding update_xyz by (rule HashStruct_xy2z)
  have c: "take 8 hashOfXY2Z \<noteq> take 8 hashOfXYZ" by code_simp
  have d: "snd (getHashes spewString [\<lparr>name = tagGet (?sfs ! 1), fieldValue = ''y2''\<rparr>]) \<noteq>
    snd (getHashes spewString [\<lparr>name = tagGet (?sfs ! 1), fieldValue = storedValue (?sfs ! 1)\<rparr>])"
    by code_simp
  have e: "tagGet (?sfs ! 1) = ''b''" by code_simp
  have f: "length [1, 2, 3 :: uint32] = length [1, 9, 3 :: uint32]" "length [1, 9, 3 :: uint32] < 2 ^ 32"
    "(1::nat) < length [1, 9, 3 :: uint32]" "[1, 2, 3 :: uint32] ! 1 \<noteq> [1, 9, 3] ! 1"
    by simp_all
  have g: "\<forall>m < length [1, 9, 3 :: uint32]. m \<noteq> 1 \<longrightarrow> [1, 2, 3 :: uint32] ! m = [1, 9, 3] ! m"
    by (simp add: nth_Cons' less_Suc_eq numeral_3_eq_3 all_conj_distrib)
  from single_change_localized [of ?sfs 1 spewString hashOfXYZ "''y2''" hashOfXY2Z "[]"
      "[1, 2, 3]" "[1, 9, 3]" 1]
    a b c d f g HashStruct_xyz
  show ?thesis unfolding update_xyz e by simp
qed

subsection \<open>C2: two changed fields\<close>

text \<open>
  Claim C2 says that two or more changed fields give a \<open>FieldChangedError\<close> with an
  empty \<open>Field\<close> and never one that names an unchanged field, as the comment of
  \<open>CompareHashStruct\<close> does. The code does otherwise: in the struct with the fields
  \<open>a\<close>, \<open>b\<close>, \<open>c\<close>, changing \<open>a\<close> and \<open>b\<close> changes the parity words 0 and 1, the
  error location is 3, and the comparison names the field \<open>c\<close>, which did not change.
  The same at the level of the parity words: with the checksums at positions 1 and 2
  changed, \<open>findErrorLocation\<close> returns \<open>(true, 2)\<close>, the index of the third one.
\<close>

theorem two_changes_report_unchanged_field:
  "HashStruct spewString (PointerToStruct (threeFields ''x'' ''y'' ''z'')) = Inr hashOfXYZ
   \<and> CompareHashStruct spewString (PointerToStruct (threeFields ''x2'' ''y2'' ''z''))
       (sliceOf hashOfXYZ) = FieldChangedError ''c''
   \<and> findErrorLocation [9, 9, 3] (calculateHammingCode [1, 2, 3]) = Some (True, 2)"
proof (intro conjI)
  show "HashStruct spewString (PointerToStruct (threeFields ''x'' ''y'' ''z'')) = Inr hashOfXYZ"
    by (rule HashStruct_xyz)
  show "CompareHashStruct spewString (PointerToStruct (threeFields ''x2'' ''y2'' ''z''))
       (sliceOf hashOfXYZ) = FieldChangedError ''c''"
    by code_simp
  show "findErrorLocation [9, 9, 3] (calculateHammingCode [1, 2, 3]) = Some (True, 2)"
    by code_simp
qed

subsection \<open>C3: no change, no error\<close>




subsection \<open>C4: identifier and value are not delimited\<close>

text \<open>
  Claim C4, as amended. \<open>getHashes\<close> writes the bytes of the identifier and, right
  after them, the bytes of the serialized value, with no length prefix and no
  delimiter: the checksum of a field is FNV-1a (32 bits, from the offset basis) of the
  concatenation of the two, and the full checksum is FNV-1a (64 bits) of the
  concatenation of these streams over all fields. So two fields whose concatenated
  streams coincide get the same checksum, however the stream splits.
\<close>

theorem getHashes_concatenates:
  "getHashes fprintf fieldInfos =
     (write64a offset64
        (concat (map (\<lambda>info. bytes_of (name info) @ fprintf (fieldValue info)) fieldInfos)),
      map (\<lambda>info. write32a offset32 (bytes_of (name info) @ fprintf (fieldValue info)))
        fieldInfos)"
  by (simp add: getHashes_eq hashInput_fun)

text \<open>
  The claim as stated fails on its own example: the identifier \<open>AB\<close> with the value
  bytes \<open>C\<close> and the identifier \<open>A\<close> with the value bytes \<open>BC\<close> get the same hashes.
  So do, with the serialization of strings, the tag \<open>A\<close> with the string
  \<open>B(*string)C\<close> and the tag \<open>A(*string)B\<close> with the string \<open>C\<close>.
\<close>

theorem identifier_value_split_counterexample:
  "(''AB'', ''C'') \<noteq> (''A'', ''BC'')
   \<and> getHashes bytes_of [\<lparr>name = ''AB'', fieldValue = ''C''\<rparr>]
     = getHashes bytes_of [\<lparr>name = ''A'', fieldValue = ''BC''\<rparr>]
   \<and> getHashes spewString [\<lparr>name = ''A'', fieldValue = ''B(*string)C''\<rparr>]
     = getHashes spewString [\<lparr>name = ''A(*string)B'', fieldValue = ''C''\<rparr>]"
  by (simp add: getHashes_eq hashInput_def bytes_of_def spewString_def)

subsection \<open>C5: the parity words\<close>

text \<open>
  Claim C5. For a vector of \<open>n\<close> field checksums, \<open>n\<close> below \<open>2^32\<close> (where
  \<open>uint32(len(fields))\<close> is \<open>n\<close>), \<open>calculateHammingCode\<close> returns exactly
  \<open>\<lceil>log\<^sub>2 (n + 1)\<rceil>\<close> parity words, none when \<open>n = 0\<close>, and the parity word \<open>k\<close> is
  the XOR of every checksum whose 1-based position has bit \<open>k\<close> set.
\<close>

theorem calculateHammingCode_spec:
  assumes "length flds < 2 ^ 32"
  shows "int (length (calculateHammingCode flds)) = \<lceil>log 2 (real (length flds + 1))\<rceil>
    \<and> (length flds = 0 \<longrightarrow> length (calculateHammingCode flds) = 0)
    \<and> (\<forall>k < length (calculateHammingCode flds).
          calculateHammingCode flds ! k = parityWordSpec flds k)"
proof (intro conjI allI impI)
  show "int (length (calculateHammingCode flds)) = \<lceil>log 2 (real (length flds + 1))\<rceil>"
    using assms by (simp only: length_calculateHammingCode_small ceillog2_Suc_ceiling)
  show "length (calculateHammingCode flds) = 0" if "length flds = 0"
    using that by (simp add: length_calculateHammingCode)
  show "calculateHammingCode flds ! k = parityWordSpec flds k"
    if "k < length (calculateHammingCode flds)" for k
    using that by (simp add: nth_calculateHammingCode parityWordSpec_def xorOfPositions_def)
qed

text \<open>
  The statement at the vector \<open>[1, 2, 3, 4, 5]\<close> and its parity word 2.
\<close>

theorem calculateHammingCode_spec_witness:
  "length [1, 2, 3, 4, 5 :: uint32] < 2 ^ 32
   \<and> int (length (calculateHammingCode [1, 2, 3, 4, 5]))
       = \<lceil>log 2 (real (length [1, 2, 3, 4, 5 :: uint32] + 1))\<rceil>
   \<and> calculateHammingCode [1, 2, 3, 4, 5] ! 2 = parityWordSpec [1, 2, 3, 4, 5] 2"
proof -
  have a: "length [1, 2, 3, 4, 5 :: uint32] < 2 ^ 32" by simp
  have b: "2 < length (calculateHammingCode [1, 2, 3, 4, 5])" by code_simp
  from calculateHammingCode_spec [OF a] a b show ?thesis by blast
qed

subsection \<open>C6: the length of the fingerprint\<close>

text \<open>
  Claim C6. Every fingerprint that \<open>HashStruct\<close> returns for a struct with \<open>n\<close> fields,
  \<open>n\<close> below \<open>2^32\<close>, has exactly \<open>8 + 4 \<cdot> \<lceil>log\<^sub>2 (n + 1)\<rceil>\<close> bytes, whatever the tags
  and values are: 8 bytes for no field and 12 bytes for one field. \<open>HashStruct\<close> does
  return a fingerprint for every well-formed record whose fields are exported.
\<close>

theorem fingerprint_length:
  "(\<forall>h. HashStruct fprintf (PointerToStruct sfs) = Inr h \<and> length sfs < 2 ^ 32 \<longrightarrow>
      int (length h) = 8 + 4 * \<lceil>log 2 (real (length sfs + 1))\<rceil>
      \<and> (length sfs = 0 \<longrightarrow> length h = 8)
      \<and> (length sfs = 1 \<longrightarrow> length h = 12))
   \<and> (wellFormed (PointerToStruct sfs) \<and> (\<forall>sf \<in> set sfs. exported sf) \<longrightarrow>
        (\<exists>h. HashStruct fprintf (PointerToStruct sfs) = Inr h))"
proof (intro conjI allI impI)
  fix h
  assume a: "HashStruct fprintf (PointerToStruct sfs) = Inr h \<and> length sfs < 2 ^ 32"
  then have h: "h = hashInfo fprintf (sort_key name (map toFieldInfo sfs))"
    using HashStruct_Inr_D(3) by blast
  have len: "length h = 8 + 4 * ceillog2 (Suc (length sfs))"
    using a unfolding h by (simp add: length_hashInfo length_calculateHammingCode_small)
  show "int (length h) = 8 + 4 * \<lceil>log 2 (real (length sfs + 1))\<rceil>"
    unfolding len using ceillog2_Suc_ceiling [of "length sfs"] by simp
  show "length h = 8" if "length sfs = 0"
    using that len by simp
  show "length h = 12" if "length sfs = 1"
  proof -
    have "ceillog2 (Suc (Suc 0)) = 1" using ceillog2_2 by (simp add: numeral_2_eq_2)
    with that len show ?thesis by simp
  qed
next
  assume "wellFormed (PointerToStruct sfs) \<and> (\<forall>sf \<in> set sfs. exported sf)"
  then show "\<exists>h. HashStruct fprintf (PointerToStruct sfs) = Inr h"
    using HashStruct_wellFormed [of sfs fprintf] by simp
qed

text \<open>
  The statement at the three-field struct, whose fingerprint has 16 bytes, and at the
  one-field struct, whose fingerprint has 12.
\<close>

theorem fingerprint_length_witness:
  "HashStruct spewString (PointerToStruct (threeFields ''x'' ''y'' ''z'')) = Inr hashOfXYZ
   \<and> length (threeFields ''x'' ''y'' ''z'') < 2 ^ 32
   \<and> int (length hashOfXYZ) = 8 + 4 * \<lceil>log 2 (real (length (threeFields ''x'' ''y'' ''z'') + 1))\<rceil>
   \<and> HashStruct spewString (PointerToStruct (oneField ''glzg'')) = Inr hashOfGlzg
   \<and> length (oneField ''glzg'') = 1
   \<and> length hashOfGlzg = 12"
proof -
  have a: "length (threeFields ''x'' ''y'' ''z'') < 2 ^ 32" by (simp add: threeFields_def)
  have b: "length (oneField ''glzg'') < 2 ^ 32" "length (oneField ''glzg'') = 1"
    by (simp_all add: oneField_def)
  from fingerprint_length [of spewString "threeFields ''x'' ''y'' ''z''"]
    fingerprint_length [of spewString "oneField ''glzg''"]
    HashStruct_xyz HashStruct_glzg a b
  show ?thesis by blast
qed

subsection \<open>C7: the full checksum decides\<close>




subsection \<open>C8: the canonical order\<close>

text \<open>
  Claim C8. For a well-formed record with exported fields, \<open>getFieldInfos\<close> returns
  the fields of the struct (each with its tag and value, none lost or added) sorted by
  identifier; \<open>HashStruct\<close> hashes exactly this list, \<open>getHashes\<close> taking the fields
  in the order of the list, and \<open>CompareHashStruct\<close> recomputes the hashes of the same
  list and names the field at the reported position of that list. Hence two structs
  that define the same mapping from identifiers to serialized values, in whatever
  declaration order, get the same fingerprint from \<open>HashStruct\<close> and the same result
  from \<open>CompareHashStruct\<close> against any stored hash. (If one of the two has an
  unexported field, so has the other, the fields being the same: then both calls
  panic on both structs.)
\<close>

theorem canonical_order:
  assumes wf: "wellFormed (PointerToStruct sfs1)"
    and same: "mset (map (identifierAndSerialized fprintf) sfs1) =
               mset (map (identifierAndSerialized fprintf) sfs2)"
    and ex: "(\<forall>sf \<in> set sfs1. exported sf) \<longleftrightarrow> (\<forall>sf \<in> set sfs2. exported sf)"
  shows "((\<forall>sf \<in> set sfs1. exported sf) \<longrightarrow>
      (\<exists>infos. getFieldInfos (PointerToStruct sfs1) = Inr infos
         \<and> mset infos = mset (map toFieldInfo sfs1)
         \<and> sorted (map name infos) \<and> distinct (map name infos)
         \<and> HashStruct fprintf (PointerToStruct sfs1) = Inr (hashInfo fprintf infos)
         \<and> getHashes fprintf infos =
             (write64a offset64
                (concat (map (\<lambda>info. bytes_of (name info) @ fprintf (fieldValue info)) infos)),
              map (\<lambda>info. write32a offset32 (bytes_of (name info) @ fprintf (fieldValue info)))
                infos)
         \<and> CompareHashStruct fprintf (PointerToStruct sfs1) existingHash =
             (if length (elems existingHash) + length (beyondLen existingHash) < 8 then Panic
              else if uint64FromSlice (take 8 (elems existingHash @ beyondLen existingHash)) =
                  fst (getHashes fprintf infos)
                then NoError
              else if length (elems existingHash) < 8 then Panic
              else (case findErrorLocation (snd (getHashes fprintf infos))
                          (uint32SliceFromByteSlice (drop 8 (elems existingHash))) of
                      None \<Rightarrow> Panic
                    | Some (foundLocation, location) \<Rightarrow>
                        if \<not> foundLocation then FieldChangedError []
                        else if unat location < length infos
                        then FieldChangedError (name (infos ! unat location))
                        else Panic))))
    \<and> HashStruct fprintf (PointerToStruct sfs1) = HashStruct fprintf (PointerToStruct sfs2)
    \<and> CompareHashStruct fprintf (PointerToStruct sfs1) existingHash =
       CompareHashStruct fprintf (PointerToStruct sfs2) existingHash"
proof -
  let ?p = "identifierAndSerialized fprintf"
  have tags: "map tagGet sfs = map fst (map ?p sfs)" for sfs
    by (simp add: identifierAndSerialized_def comp_def)
  have d1: "distinct (map fst (map ?p sfs1))"
    using wf unfolding wellFormed_PointerToStruct tags by simp
  have d2: "distinct (map fst (map ?p sfs2))"
    using same d1 by (rule distinct_map_mset_cong [of "map ?p sfs1" "map ?p sfs2" fst])
  have "set (map ?p sfs2) = set (map ?p sfs1)"
    using same by (rule mset_eq_setD [symmetric])
  then have "fst ` set (map ?p sfs2) = fst ` set (map ?p sfs1)" by simp
  then have "tagGet ` set sfs2 = tagGet ` set sfs1"
    by (simp add: identifierAndSerialized_def image_image)
  moreover have "[] \<notin> tagGet ` set sfs1"
    using wf unfolding wellFormed_PointerToStruct by auto
  ultimately have "[] \<notin> tagGet ` set sfs2" by simp
  then have ne: "\<forall>sf \<in> set sfs2. tagGet sf \<noteq> []"
    by (auto simp: image_iff)
  have wf2: "wellFormed (PointerToStruct sfs2)"
    unfolding wellFormed_PointerToStruct using ne d2 unfolding tags by simp
  let ?i1 = "sort_key name (map toFieldInfo sfs1)"
  let ?i2 = "sort_key name (map toFieldInfo sfs2)"
  have first: "getFieldInfos (PointerToStruct sfs1) = Inr ?i1
         \<and> mset ?i1 = mset (map toFieldInfo sfs1)
         \<and> sorted (map name ?i1) \<and> distinct (map name ?i1)
         \<and> HashStruct fprintf (PointerToStruct sfs1) = Inr (hashInfo fprintf ?i1)
         \<and> getHashes fprintf ?i1 =
             (write64a offset64
                (concat (map (\<lambda>info. bytes_of (name info) @ fprintf (fieldValue info)) ?i1)),
              map (\<lambda>info. write32a offset32 (bytes_of (name info) @ fprintf (fieldValue info)))
                ?i1)
         \<and> CompareHashStruct fprintf (PointerToStruct sfs1) existingHash =
             (if length (elems existingHash) + length (beyondLen existingHash) < 8 then Panic
              else if uint64FromSlice (take 8 (elems existingHash @ beyondLen existingHash)) =
                  fst (getHashes fprintf ?i1)
                then NoError
              else if length (elems existingHash) < 8 then Panic
              else (case findErrorLocation (snd (getHashes fprintf ?i1))
                          (uint32SliceFromByteSlice (drop 8 (elems existingHash))) of
                      None \<Rightarrow> Panic
                    | Some (foundLocation, location) \<Rightarrow>
                        if \<not> foundLocation then FieldChangedError []
                        else if unat location < length ?i1
                        then FieldChangedError (name (?i1 ! unat location))
                        else Panic))"
    if e1: "\<forall>sf \<in> set sfs1. exported sf"
  proof -
    have g1: "getFieldInfos (PointerToStruct sfs1) = Inr ?i1"
      using wf e1 by (rule getFieldInfos_wellFormed)
    note s = sorted_getFieldInfos [OF g1]
    have h1: "HashStruct fprintf (PointerToStruct sfs1) = Inr (hashInfo fprintf ?i1)"
      using wf e1 by (rule HashStruct_wellFormed)
    have gh: "getHashes fprintf ?i1 =
             (write64a offset64
                (concat (map (\<lambda>info. bytes_of (name info) @ fprintf (fieldValue info)) ?i1)),
              map (\<lambda>info. write32a offset32 (bytes_of (name info) @ fprintf (fieldValue info)))
                ?i1)"
      by (simp only: getHashes_eq hashInput_fun)
    from g1 s h1 gh CompareHashStruct_Inr [OF g1, of fprintf existingHash]
    show ?thesis by (intro conjI)
  qed
  have second: "HashStruct fprintf (PointerToStruct sfs1) = HashStruct fprintf (PointerToStruct sfs2)
    \<and> CompareHashStruct fprintf (PointerToStruct sfs1) existingHash =
       CompareHashStruct fprintf (PointerToStruct sfs2) existingHash"
  proof (cases "\<forall>sf \<in> set sfs1. exported sf")
    case True
    with ex have e2: "\<forall>sf \<in> set sfs2. exported sf" by simp
    have g1: "getFieldInfos (PointerToStruct sfs1) = Inr ?i1"
      using wf True by (rule getFieldInfos_wellFormed)
    have g2: "getFieldInfos (PointerToStruct sfs2) = Inr ?i2"
      using wf2 e2 by (rule getFieldInfos_wellFormed)
    have "sort_key fst (map ?p sfs1) = sort_key fst (map ?p sfs2)"
      using same d1 by (rule sort_key_distinct_unique [of "map ?p sfs1" "map ?p sfs2" fst])
    then have pairs: "map (\<lambda>info. (name info, fprintf (fieldValue info))) ?i1 =
        map (\<lambda>info. (name info, fprintf (fieldValue info))) ?i2"
      by (simp only: sorted_infos_pairs)
    note eqs = same_pairs_same_results [OF pairs]
    have "hashInfo fprintf ?i1 = hashInfo fprintf ?i2"
      by (simp add: hashInfo_def eqs(1))
    then have "HashStruct fprintf (PointerToStruct sfs1) = HashStruct fprintf (PointerToStruct sfs2)"
      by (simp add: HashStruct_def g1 g2)
    moreover have "CompareHashStruct fprintf (PointerToStruct sfs1) existingHash =
         CompareHashStruct fprintf (PointerToStruct sfs2) existingHash"
      using g1 g2 eqs by (rule CompareHashStruct_cong)
    ultimately show ?thesis by simp
  next
    case False
    with ex have e2: "\<not> (\<forall>sf \<in> set sfs2. exported sf)" by simp
    have p1: "getFieldInfos (PointerToStruct sfs1) = Inl InterfacePanic"
      using wf False by (rule getFieldInfos_wellFormed_unexported)
    have p2: "getFieldInfos (PointerToStruct sfs2) = Inl InterfacePanic"
      using wf2 e2 by (rule getFieldInfos_wellFormed_unexported)
    show ?thesis
      by (simp add: HashStruct_def CompareHashStruct_def p1 p2)
  qed
  from first second show ?thesis by blast
qed

text \<open>
  The statement at the three-field struct with the value \<open>y2\<close> and the same fields in
  reverse order: the field infos come out in the order \<open>a\<close>, \<open>b\<close>, \<open>c\<close>, the
  fingerprint is that of the struct in declaration order, and against the fingerprint
  of \<open>x\<close>, \<open>y\<close>, \<open>z\<close> the field \<open>b\<close> is named.
\<close>

theorem canonical_order_witness:
  "wellFormed (PointerToStruct (threeFields ''x'' ''y2'' ''z''))
   \<and> getFieldInfos (PointerToStruct (rev (threeFields ''x'' ''y2'' ''z''))) = Inr infosXY2Z
   \<and> HashStruct spewString (PointerToStruct (rev (threeFields ''x'' ''y2'' ''z''))) = Inr hashOfXY2Z
   \<and> CompareHashStruct spewString (PointerToStruct (rev (threeFields ''x'' ''y2'' ''z'')))
       (sliceOf hashOfXYZ) = FieldChangedError ''b''"
proof -
  let ?sfs = "threeFields ''x'' ''y2'' ''z''"
  have wf: "wellFormed (PointerToStruct ?sfs)" by code_simp
  have same: "mset (map (identifierAndSerialized spewString) ?sfs) =
      mset (map (identifierAndSerialized spewString) (rev ?sfs))"
    by (simp add: rev_map)
  have ex: "(\<forall>sf \<in> set ?sfs. exported sf) \<longleftrightarrow> (\<forall>sf \<in> set (rev ?sfs). exported sf)"
    by simp
  have c: "CompareHashStruct spewString (PointerToStruct ?sfs) (sliceOf hashOfXYZ)
      = FieldChangedError ''b''"
    by code_simp
  have g: "getFieldInfos (PointerToStruct (rev ?sfs)) = Inr infosXY2Z" by code_simp
  from canonical_order [OF wf same ex, of "sliceOf hashOfXYZ"] wf c g HashStruct_xy2z
  show ?thesis by simp
qed

subsection \<open>C9: structural errors\<close>




subsection \<open>C10: the length of the stored hash\<close>




end
